theory Spec2Isabelle
  imports Main "HOL-Library.Multiset"
begin

section \<open>Strings\<close>

text \<open>
  A URL is a Python \<open>str\<close> that may hold any code point, and what the validator accepts
  depends on code points above 255: a URL is modelled as the list of its code points.
  \<open>str s\<close> is the \<open>str\<close> whose code points are the characters of \<open>s\<close>. The text of
  a page and a file name are modelled as a \<open>string\<close>, a list of 8-bit characters, where
  a character stands for the code point of the same number. On this range \<open>str.lower\<close>
  maps \<open>A\<close>..\<open>Z\<close> and the upper-case letters 192..222 (except the multiplication
  sign 215) to the code point 32 above, and \<open>str.isspace\<close> holds of 9..13, 28..32, 133
  and 160.
\<close>

type_synonym unicode = "nat list"

definition str :: "string \<Rightarrow> unicode" where
  "str s = map of_char s"

definition py_lower_char :: "char \<Rightarrow> char" where
  "py_lower_char c =
     (let n = (of_char c :: nat)
      in if (65 \<le> n \<and> n \<le> 90) \<or> (192 \<le> n \<and> n \<le> 222 \<and> n \<noteq> 215)
         then char_of (n + 32) else c)"

definition lower :: "string \<Rightarrow> string" where
  "lower s = map py_lower_char s"

definition isspace :: "char \<Rightarrow> bool" where
  "isspace c =
     (let n = (of_char c :: nat)
      in (9 \<le> n \<and> n \<le> 13) \<or> (28 \<le> n \<and> n \<le> 32) \<or> n = 133 \<or> n = 160)"

definition strip :: "string \<Rightarrow> string" where
  "strip s = rev (dropWhile isspace (rev (dropWhile isspace s)))"

fun startswith :: "string \<Rightarrow> string \<Rightarrow> bool" where
  "startswith s [] = True"
| "startswith [] (p # ps) = False"
| "startswith (c # cs) (p # ps) = (c = p \<and> startswith cs ps)"

text \<open>\<open>contains s sub\<close> is Python's \<open>sub in s\<close>.\<close>

fun contains :: "string \<Rightarrow> string \<Rightarrow> bool" where
  "contains [] sub = (sub = [])"
| "contains (c # cs) sub = (startswith (c # cs) sub \<or> contains cs sub)"

definition endswith :: "string \<Rightarrow> string \<Rightarrow> bool" where
  "endswith s suffix = startswith (rev s) (rev suffix)"

section \<open>URL syntax validation\<close>

text \<open>
  \<open>is_valid_url\<close> matches the URL against the regular expression
  \<^verbatim>\<open>^(?:http|https)://[^ ]+$\<close> with \<open>re.IGNORECASE\<close>, anchored at the start by
  \<open>re.match\<close>. Under \<open>re.IGNORECASE\<close> a lower-case ASCII letter of the pattern
  matches the letter, its capital and the code points that lower-case to it or that the
  \<open>re\<close> module treats as the same letter: U+0130 and U+0131 for \<open>i\<close>, U+212A for
  \<open>k\<close>, U+017F for \<open>s\<close>; a character of the pattern that is not a letter matches
  itself only. \<open>match_ignorecase p s\<close> matches the literal \<open>p\<close> at the start of \<open>s\<close>
  and returns what follows it. \<open>match_rest\<close> is \<^verbatim>\<open>[^ ]+$\<close>: some non-empty run
  of characters other than the space, after which the subject is at its end, where \<open>$\<close>
  also holds just before a final newline.
\<close>

definition matches_ignorecase :: "nat \<Rightarrow> nat \<Rightarrow> bool" where
  "matches_ignorecase p c =
     (c = p \<or> (97 \<le> p \<and> p \<le> 122 \<and> c + 32 = p)
      \<or> (p = 105 \<and> (c = 304 \<or> c = 305)) \<or> (p = 107 \<and> c = 8490) \<or> (p = 115 \<and> c = 383))"

fun match_ignorecase :: "unicode \<Rightarrow> unicode \<Rightarrow> unicode option" where
  "match_ignorecase [] s = Some s"
| "match_ignorecase (p # ps) [] = None"
| "match_ignorecase (p # ps) (c # cs) =
     (if matches_ignorecase p c then match_ignorecase ps cs else None)"

definition at_end :: "unicode \<Rightarrow> bool" where
  "at_end s = (s = [] \<or> s = [10])"

definition match_rest :: "unicode \<Rightarrow> bool" where
  "match_rest s =
     list_ex (\<lambda>n. list_all (\<lambda>c. c \<noteq> 32) (take n s) \<and> at_end (drop n s))
       [1..<Suc (length s)]"

definition is_valid_url :: "unicode \<Rightarrow> bool" where
  "is_valid_url url =
     list_ex (\<lambda>scheme. case match_ignorecase (str (scheme @ ''://'')) url of
                          None \<Rightarrow> False
                        | Some rest \<Rightarrow> match_rest rest)
       [''http'', ''https'']"

text \<open>
  The validity rule in the words of the specification: the scheme \<open>http\<close> or \<open>https\<close>,
  then \<open>://\<close>, then one or more characters none of which is whitespace (a code point
  of which \<open>str.isspace\<close> holds).
\<close>

definition whitespace :: "nat \<Rightarrow> bool" where
  "whitespace c =
     ((9 \<le> c \<and> c \<le> 13) \<or> (28 \<le> c \<and> c \<le> 32) \<or> c = 133 \<or> c = 160 \<or> c = 5760
      \<or> (8192 \<le> c \<and> c \<le> 8202) \<or> c = 8232 \<or> c = 8233 \<or> c = 8239 \<or> c = 8287
      \<or> c = 12288)"

definition spec_valid :: "unicode \<Rightarrow> bool" where
  "spec_valid url =
     (\<exists>scheme rest. url = str scheme @ str ''://'' @ rest
        \<and> (scheme = ''http'' \<or> scheme = ''https'')
        \<and> rest \<noteq> [] \<and> list_all (\<lambda>c. \<not> whitespace c) rest)"

text \<open>
  What the code accepts as a letter of the scheme, for the statement of the rule that the
  code follows: the letter, its capital, or U+017F (the long s) for \<open>s\<close>.
\<close>

definition letter_variant :: "nat \<Rightarrow> char \<Rightarrow> bool" where
  "letter_variant c p = (c = of_char p \<or> c + 32 = of_char p \<or> (p = CHR ''s'' \<and> c = 383))"

section \<open>The world outside the program\<close>

text \<open>
  The servers, the HTML parser and the file system are parameters of the model. A probe
  of a URL is answered by a response (status code and body text) or by an exception. The
  \<open>k\<close>-th request of the content fetch of a URL is answered by a response, whose body
  text is \<open>None\<close> when reading it raises, or by an exception. The parser either raises in
  the \<open>BeautifulSoup\<close> constructor or gives a document; querying the document either
  raises or gives the text of the \<open>h1\<close>, \<open>h2\<close>, \<open>h3\<close> elements and the text of the
  \<open>p\<close> elements, each in document order. \<open>to_csv\<close> tells whether the file was written.
  \<open>retried_exceptions\<close> is the set of exceptions on which the retry client of the
  library repeats a request when the option \<open>exceptions\<close> is left at its default, as
  \<open>main\<close> leaves it; \<open>library_start_timeout\<close>, \<open>library_factor\<close> and
  \<open>library_max_timeout\<close> are the library's defaults of the options of the same names
  (times in milliseconds), which \<open>main\<close> leaves at their defaults too.
\<close>

datatype exn = ClientResponseError nat | TimeoutError | OtherException

datatype probe_reply = ProbeResponse nat string | ProbeRaised

datatype http_reply = Response nat "string option" | Raised exn

datatype dom_query = QueryRaised | Elements "string list" "string list"

datatype soup_result = ConstructorRaised | Parsed dom_query

record row =
  row_url :: unicode
  row_title :: string
  row_paragraph :: string

record world =
  probe_get :: "unicode \<Rightarrow> probe_reply"
  session_get :: "unicode \<Rightarrow> nat \<Rightarrow> http_reply"
  retried_exceptions :: "exn \<Rightarrow> bool"
  library_start_timeout :: nat
  library_factor :: nat
  library_max_timeout :: nat
  BeautifulSoup :: "string \<Rightarrow> soup_result"
  to_csv :: "string \<Rightarrow> row list \<Rightarrow> bool"

text \<open>
  What a run does besides computing its result is recorded as a list of events: the log
  records, the requests sent and the pauses of the retry client (in milliseconds).
\<close>

datatype level = DEBUG | INFO | WARNING | ERROR

datatype message =
    CheckingUrl unicode
  | PageNotFoundDetected unicode
  | NonOkStatus unicode nat
  | ErrorCheckingUrl unicode
  | FetchingUrl unicode
  | RequestHeaders
  | StatusIs nat
  | ResponseHeaders
  | ClientError unicode nat
  | TimeoutWhileFetching unicode
  | UnexpectedError unicode
  | NoTitlesOrParagraphs unicode
  | ParsingError unicode
  | CheckingUrls
  | InvalidUrlSkipped unicode
  | NoValidAliveUrls
  | NoDataScraped
  | DataSaved string
  | FailedToSaveCsv

datatype event = Log level message | ProbeGet unicode | FetchGet unicode | Sleep nat

definition debug :: "bool \<Rightarrow> message list \<Rightarrow> event list" where
  "debug verbose msgs = (if verbose then map (Log DEBUG) msgs else [])"

section \<open>Liveness probe\<close>

definition is_url_alive_and_valid :: "world \<Rightarrow> unicode \<Rightarrow> bool \<Rightarrow> bool \<times> event list" where
  "is_url_alive_and_valid w url verbose =
     (let evs = debug verbose [CheckingUrl url] @ [ProbeGet url]
      in case probe_get w url of
           ProbeResponse status_code text \<Rightarrow>
             if status_code = 200 then
               (let content_lower = lower text
                in if contains content_lower ''page not found''
                   then (False, evs @ [Log WARNING (PageNotFoundDetected url)])
                   else (True, evs))
             else (False, evs @ [Log WARNING (NonOkStatus url status_code)])
         | ProbeRaised \<Rightarrow> (False, evs @ [Log ERROR (ErrorCheckingUrl url)]))"

text \<open>
  The soft-404 rule in the words of the specification: the body contains the phrase in
  any letter case, that is, some stretch of the body spells the phrase when each of its
  characters is the phrase's character or the capital of it.
\<close>

definition letter_of :: "char \<Rightarrow> char \<Rightarrow> bool" where
  "letter_of c p =
     (c = p \<or> (97 \<le> (of_char p :: nat) \<and> (of_char p :: nat) \<le> 122
               \<and> (of_char c :: nat) + 32 = of_char p))"

definition occurs_any_case :: "string \<Rightarrow> string \<Rightarrow> bool" where
  "occurs_any_case phrase text =
     (\<exists>before found after. text = before @ found @ after \<and> list_all2 letter_of found phrase)"

section \<open>Retrying fetcher\<close>

text \<open>
  The session is the \<open>RetryClient\<close> of the library \<open>aiohttp_retry\<close>, which is not part of
  the repository; its request loop is modelled here from the library. \<open>main\<close> builds it
  with \<open>ExponentialRetry(attempts=3)\<close> and \<open>raise_for_status=False\<close>. With the
  defaults of the other options a response is handed back unless its status is 500 or
  above and attempts remain; the pause after attempt \<open>k\<close> is
  \<open>start_timeout * factor ^ k\<close>, at most \<open>max_timeout\<close>.
\<close>

record retry_options =
  attempts :: nat
  start_timeout :: nat
  max_timeout :: nat
  factor :: nat
  statuses :: "nat list"
  exceptions :: "exn \<Rightarrow> bool"
  retry_all_server_errors :: bool

record retry_client =
  raise_for_status :: bool
  retry_opts :: retry_options

definition ExponentialRetry :: "world \<Rightarrow> nat \<Rightarrow> retry_options" where
  "ExponentialRetry w n =
     \<lparr>attempts = n, start_timeout = library_start_timeout w,
      max_timeout = library_max_timeout w, factor = library_factor w, statuses = [],
      exceptions = retried_exceptions w, retry_all_server_errors = True\<rparr>"

definition RetryClient :: "bool \<Rightarrow> retry_options \<Rightarrow> retry_client" where
  "RetryClient rfs opts = \<lparr>raise_for_status = rfs, retry_opts = opts\<rparr>"

definition get_timeout :: "retry_options \<Rightarrow> nat \<Rightarrow> nat" where
  "get_timeout opts attempt =
     min (start_timeout opts * factor opts ^ attempt) (max_timeout opts)"

definition is_skip_retry :: "retry_options \<Rightarrow> nat \<Rightarrow> nat \<Rightarrow> bool" where
  "is_skip_retry opts current_attempt status =
     (if current_attempt = attempts opts then True
      else if status \<ge> 500 \<and> retry_all_server_errors opts then False
      else if status \<in> set (statuses opts) then False
      else True)"

datatype step = Done "exn + nat \<times> string option" | Retry

definition on_exception :: "retry_options \<Rightarrow> nat \<Rightarrow> exn \<Rightarrow> step" where
  "on_exception opts current_attempt e =
     (if current_attempt \<ge> attempts opts then Done (Inl e)
      else if \<not> exceptions opts e then Done (Inl e)
      else Retry)"

definition request_step :: "retry_client \<Rightarrow> nat \<Rightarrow> http_reply \<Rightarrow> step" where
  "request_step session current_attempt reply =
     (case reply of
        Raised e \<Rightarrow> on_exception (retry_opts session) current_attempt e
      | Response status text \<Rightarrow>
          if is_skip_retry (retry_opts session) current_attempt status then
            (if raise_for_status session \<and> status \<ge> 400
             then on_exception (retry_opts session) current_attempt (ClientResponseError status)
             else Done (Inr (status, text)))
          else Retry)"

text \<open>
  The request loop is \<open>while True\<close>; it is a partial function, \<open>None\<close> when it does not
  return. \<open>current_attempt\<close> counts the requests sent so far.
\<close>

partial_function (option) do_request ::
  "world \<Rightarrow> retry_client \<Rightarrow> unicode \<Rightarrow> nat \<Rightarrow> event list
     \<Rightarrow> ((exn + nat \<times> string option) \<times> event list) option" where
  "do_request w session url current_attempt evs =
     (let k = current_attempt + 1;
          evs' = evs @ [FetchGet url]
      in case request_step session k (session_get w url k) of
           Done r \<Rightarrow> Some (r, evs')
         | Retry \<Rightarrow>
             do_request w session url k (evs' @ [Sleep (get_timeout (retry_opts session) k)]))"

declare do_request.simps [code]

definition handler :: "unicode \<Rightarrow> exn \<Rightarrow> event" where
  "handler url e =
     (case e of
        ClientResponseError status \<Rightarrow> Log ERROR (ClientError url status)
      | TimeoutError \<Rightarrow> Log ERROR (TimeoutWhileFetching url)
      | OtherException \<Rightarrow> Log ERROR (UnexpectedError url))"

text \<open>
  \<open>fetch_url\<close> is \<open>None\<close> when the request loop does not return; otherwise it is the
  value returned (the body text, or Python's \<open>None\<close>) with the events of the call.
\<close>

definition fetch_url ::
  "world \<Rightarrow> retry_client \<Rightarrow> unicode \<Rightarrow> bool \<Rightarrow> (string option \<times> event list) option" where
  "fetch_url w session url verbose =
     (case do_request w session url 0 (debug verbose [FetchingUrl url, RequestHeaders]) of
        None \<Rightarrow> None
      | Some (Inl e, evs) \<Rightarrow> Some (None, evs @ [handler url e])
      | Some (Inr (status, text), evs) \<Rightarrow>
          (let evs' = evs @ debug verbose [StatusIs status, ResponseHeaders]
           in if status \<ge> 400
              then Some (None, evs' @ [handler url (ClientResponseError status)])
              else case text of
                     None \<Rightarrow> Some (None, evs' @ [handler url OtherException])
                   | Some body \<Rightarrow> Some (Some body, evs')))"

section \<open>Content extraction\<close>

text \<open>
  \<open>scrape_data\<close> fetches the page and builds the records. The \<open>BeautifulSoup\<close>
  constructor is called before the \<open>try\<close> block, so an exception raised there leaves
  \<open>scrape_data\<close>; an exception raised by the queries inside the block is caught.
\<close>

datatype error = ParserError

definition combine :: "unicode \<Rightarrow> string list \<Rightarrow> string list \<Rightarrow> row list" where
  "combine url titles paragraphs =
     (let max_len = max (length titles) (length paragraphs)
      in map (\<lambda>i. \<lparr>row_url = url,
                    row_title = (if i < length titles then titles ! i else []),
                    row_paragraph = (if i < length paragraphs then paragraphs ! i else [])\<rparr>)
           [0..<max_len])"

definition extract_records :: "world \<Rightarrow> unicode \<Rightarrow> string \<Rightarrow> (error + row list) \<times> event list" where
  "extract_records w url html =
     (case BeautifulSoup w html of
        ConstructorRaised \<Rightarrow> (Inl ParserError, [])
      | Parsed QueryRaised \<Rightarrow> (Inr [], [Log ERROR (ParsingError url)])
      | Parsed (Elements headings ps) \<Rightarrow>
          (let titles = map strip headings;
               paragraphs = map strip ps
           in if titles = [] \<and> paragraphs = []
              then (Inr [], [Log WARNING (NoTitlesOrParagraphs url)])
              else (Inr (combine url titles paragraphs), [])))"

definition after_fetch ::
  "world \<Rightarrow> unicode \<Rightarrow> string option \<Rightarrow> (error + row list) \<times> event list" where
  "after_fetch w url html =
     (case html of
        None \<Rightarrow> (Inr [], [])
      | Some text \<Rightarrow> if text = [] then (Inr [], []) else extract_records w url text)"

definition scrape_data ::
  "world \<Rightarrow> retry_client \<Rightarrow> unicode \<Rightarrow> bool \<Rightarrow> ((error + row list) \<times> event list) option" where
  "scrape_data w session url verbose =
     (case fetch_url w session url verbose of
        None \<Rightarrow> None
      | Some (html, evs) \<Rightarrow>
          (case after_fetch w url html of (r, evs') \<Rightarrow> Some (r, evs @ evs')))"

section \<open>Pipeline\<close>

text \<open>
  The first stage of \<open>main\<close> checks the URLs one after the other and collects those that
  are well-formed and alive.
\<close>

fun check_urls ::
  "world \<Rightarrow> bool \<Rightarrow> unicode list \<Rightarrow> unicode list \<Rightarrow> event list
     \<Rightarrow> unicode list \<times> event list" where
  "check_urls w verbose [] valid_urls evs = (valid_urls, evs)"
| "check_urls w verbose (url # urls) valid_urls evs =
     (if is_valid_url url then
        (case is_url_alive_and_valid w url verbose of
           (alive, evs') \<Rightarrow>
             check_urls w verbose urls (if alive then valid_urls @ [url] else valid_urls)
               (evs @ evs'))
      else check_urls w verbose urls valid_urls (evs @ [Log WARNING (InvalidUrlSkipped url)]))"

text \<open>
  \<open>tqdm_asyncio.gather\<close> (of the library \<open>tqdm\<close>) pairs each task with its index, awaits
  the pairs in the order in which the tasks complete, sorts them and returns the results.
  The order of completion is a parameter: task \<open>i\<close> completes at time \<open>finish i\<close>. The
  first task in this order that raised ends the \<open>gather\<close> with its exception. The events
  of the tasks are listed task by task in the order of completion.
\<close>

fun as_completed ::
  "nat list \<Rightarrow> ((error + row list) \<times> event list) list
     \<Rightarrow> (error + (nat \<times> row list) list) \<times> event list" where
  "as_completed [] tasks = (Inr [], [])"
| "as_completed (i # order) tasks =
     (case tasks ! i of
        (Inl e, evs) \<Rightarrow> (Inl e, evs)
      | (Inr rows, evs) \<Rightarrow>
          (case as_completed order tasks of
             (Inl e, evs') \<Rightarrow> (Inl e, evs @ evs')
           | (Inr res, evs') \<Rightarrow> (Inr ((i, rows) # res), evs @ evs')))"

definition gather ::
  "(nat \<Rightarrow> nat) \<Rightarrow> ((error + row list) \<times> event list) list
     \<Rightarrow> (error + row list list) \<times> event list" where
  "gather finish tasks =
     (case as_completed (sort_key finish [0..<length tasks]) tasks of
        (Inl e, evs) \<Rightarrow> (Inl e, evs)
      | (Inr res, evs) \<Rightarrow> (Inr (map snd (sort_key fst res)), evs))"

text \<open>
  The result of \<open>main\<close>: the dataset (\<open>flat_data\<close>, empty when \<open>main\<close> returns before
  building it) and the file written, if any. \<open>main\<close> is \<open>None\<close> when it does not return
  and \<open>Inl\<close> when an exception leaves it.
\<close>

record outcome =
  dataset :: "row list"
  written :: "(string \<times> row list) option"

definition save :: "world \<Rightarrow> string \<Rightarrow> row list \<Rightarrow> outcome \<times> event list" where
  "save w filename flat_data =
     (let filename' = (if \<not> endswith filename ''.csv'' then filename @ ''.csv'' else filename)
      in if to_csv w filename' flat_data
         then (\<lparr>dataset = flat_data, written = Some (filename', flat_data)\<rparr>,
               [Log INFO (DataSaved filename')])
         else (\<lparr>dataset = flat_data, written = None\<rparr>, [Log ERROR FailedToSaveCsv]))"

definition main ::
  "world \<Rightarrow> (nat \<Rightarrow> nat) \<Rightarrow> unicode list \<Rightarrow> string \<Rightarrow> bool
     \<Rightarrow> ((error + outcome) \<times> event list) option" where
  "main w finish urls filename verbose =
     (case check_urls w verbose urls [] [Log INFO CheckingUrls] of
        (valid_urls, evs) \<Rightarrow>
          if valid_urls = []
          then Some (Inr \<lparr>dataset = [], written = None\<rparr>, evs @ [Log WARNING NoValidAliveUrls])
          else
            (let retry_options = ExponentialRetry w 3;
                 session = RetryClient False retry_options
             in case those (map (\<lambda>url. scrape_data w session url verbose) valid_urls) of
                  None \<Rightarrow> None
                | Some tasks \<Rightarrow>
                    (case gather finish tasks of
                       (Inl e, evs') \<Rightarrow> Some (Inl e, evs @ evs')
                     | (Inr all_results, evs') \<Rightarrow>
                         (let flat_data =
                                concat (filter (\<lambda>sublist. sublist \<noteq> []) all_results)
                          in if flat_data = []
                             then Some (Inr \<lparr>dataset = [], written = None\<rparr>,
                                        evs @ evs' @ [Log WARNING NoDataScraped])
                             else (case save w filename flat_data of
                                     (out, evs'') \<Rightarrow> Some (Inr out, evs @ evs' @ evs''))))))"

section \<open>Notions used in the statements\<close>

text \<open>
  The session that \<open>main\<close> builds and the pause of that session after attempt \<open>k\<close>;
  the requests, the pauses, and the requests and pauses together, among the events of a
  call; whether the retry client repeats the request after the reply to request \<open>k\<close>
  of a URL, when attempts remain; the URLs that pass both checks of the first stage; the
  records that the task of one URL returns.
\<close>

definition main_session :: "world \<Rightarrow> retry_client" where
  "main_session w = RetryClient False (ExponentialRetry w 3)"

definition backoff :: "world \<Rightarrow> nat \<Rightarrow> nat" where
  "backoff w k = get_timeout (retry_opts (main_session w)) k"

definition retried :: "world \<Rightarrow> unicode \<Rightarrow> nat \<Rightarrow> bool" where
  "retried w url k =
     (case session_get w url k of
        Response status body \<Rightarrow> 500 \<le> status
      | Raised e \<Rightarrow> retried_exceptions w e)"

definition traffic :: "event list \<Rightarrow> event list" where
  "traffic evs =
     filter (\<lambda>e. case e of FetchGet u \<Rightarrow> True | Sleep d \<Rightarrow> True | _ \<Rightarrow> False) evs"

definition requests :: "event list \<Rightarrow> event list" where
  "requests evs = filter (\<lambda>e. case e of FetchGet u \<Rightarrow> True | _ \<Rightarrow> False) evs"

definition pauses :: "event list \<Rightarrow> nat list" where
  "pauses evs = concat (map (\<lambda>e. case e of Sleep d \<Rightarrow> [d] | _ \<Rightarrow> []) evs)"

definition alive_urls :: "world \<Rightarrow> bool \<Rightarrow> unicode list \<Rightarrow> unicode list" where
  "alive_urls w verbose urls =
     filter (\<lambda>url. is_valid_url url \<and> fst (is_url_alive_and_valid w url verbose)) urls"

definition records_of :: "world \<Rightarrow> bool \<Rightarrow> unicode \<Rightarrow> row list" where
  "records_of w verbose url =
     (case scrape_data w (main_session w) url verbose of
        Some (Inr rows, evs) \<Rightarrow> rows
      | _ \<Rightarrow> [])"

section \<open>An example world\<close>

text \<open>
  A concrete world for the examples: a page with one heading and two paragraphs behind
  every URL not named here, a soft-404 page, a host that does not answer the probe, a
  page that is gone (404), a server that is busy (503), an empty body, a page whose two
  headings are blank, a body on which the \<open>BeautifulSoup\<close> constructor raises, and
  a page that times out twice before it answers. The retry client retries every exception,
  starts its pauses from 100 milliseconds with factor 2, and pauses 30 seconds at most.
\<close>

definition example_world :: world where
  "example_world =
     \<lparr>probe_get = (\<lambda>url.
        if url = str ''http://soft.test/'' then ProbeResponse 200 ''<h1>Page NOT Found</h1>''
        else if url = str ''http://down.test/'' then ProbeRaised
        else ProbeResponse 200 ''<html>ok</html>''),
      session_get = (\<lambda>url k.
        if url = str ''http://gone.test/'' then Response 404 (Some ''gone'')
        else if url = str ''http://busy.test/'' then Response 503 (Some ''busy'')
        else if url = str ''http://empty.test/'' then Response 200 (Some [])
        else if url = str ''http://blank.test/''
          then Response 200 (Some ''<h1> </h1><h2></h2><p>a</p><p>b</p><p>c</p><p>d</p><p>e</p>'')
        else if url = str ''http://bad.test/'' then Response 200 (Some ''<rejected>'')
        else if url = str ''http://flaky.test/page'' \<and> k < 3 then Raised TimeoutError
        else Response 200 (Some ''<h1>Intro</h1><p>A</p><p>B</p>'')),
      retried_exceptions = (\<lambda>e. True),
      library_start_timeout = 100,
      library_factor = 2,
      library_max_timeout = 30000,
      BeautifulSoup = (\<lambda>html.
        if html = ''<h1>Intro</h1><p>A</p><p>B</p>''
          then Parsed (Elements [''Intro''] [''A'', ''B''])
        else if html = ''<h1> </h1><h2></h2><p>a</p><p>b</p><p>c</p><p>d</p><p>e</p>''
          then Parsed (Elements ['' '', []] [''a'', ''b'', ''c'', ''d'', ''e''])
        else if html = ''<rejected>'' then ConstructorRaised
        else Parsed (Elements [] [])),
      to_csv = (\<lambda>filename rows. True)\<rparr>"

section \<open>Properties\<close>

subsection \<open>Characters and strings\<close>

lemma of_char_less_256: "(of_char c :: nat) < 256"
proof -
  have "(of_char c :: nat) mod 256 < 256"
    by (rule mod_less_divisor) simp
  then show ?thesis
    by (simp only: of_char_mod_256)
qed

lemma py_lower_char_eq_iff:
  "py_lower_char c = p \<longleftrightarrow>
     (if (65 \<le> (of_char c :: nat) \<and> (of_char c :: nat) \<le> 90)
         \<or> (192 \<le> (of_char c :: nat) \<and> (of_char c :: nat) \<le> 222 \<and> (of_char c :: nat) \<noteq> 215)
      then (of_char c :: nat) + 32 = of_char p else c = p)"
  by (auto simp: py_lower_char_def Let_def char_of_eq_iff take_bit_eq_mod)

lemma py_lower_char_letter:
  assumes "(97 \<le> (of_char p :: nat) \<and> (of_char p :: nat) \<le> 122) \<or> p = CHR '' ''"
  shows "py_lower_char c = p \<longleftrightarrow> letter_of c p"
  using assms of_char_less_256 [of c]
  by (auto simp: py_lower_char_eq_iff letter_of_def)

lemma py_lower_char_other:
  assumes "(of_char p :: nat) < 97 \<or> (122 < (of_char p :: nat) \<and> (of_char p :: nat) < 224)"
  shows "py_lower_char c = p \<longleftrightarrow> c = p \<and> \<not> (65 \<le> (of_char p :: nat) \<and> (of_char p :: nat) \<le> 90) \<and> \<not> (192 \<le> (of_char p :: nat) \<and> (of_char p :: nat) \<le> 222 \<and> (of_char p :: nat) \<noteq> 215)"
  using assms of_char_less_256 [of c]
  by (auto simp: py_lower_char_eq_iff)

lemma lower_eq_iff_letters:
  "list_all (\<lambda>p. (97 \<le> (of_char p :: nat) \<and> (of_char p :: nat) \<le> 122) \<or> p = CHR '' '') ps
     \<Longrightarrow> lower xs = ps \<longleftrightarrow> list_all2 letter_of xs ps"
proof (induction ps arbitrary: xs)
  case Nil
  then show ?case by (simp add: lower_def)
next
  case (Cons p ps)
  show ?case
  proof (cases xs)
    case Nil
    then show ?thesis by (simp add: lower_def)
  next
    case (Cons x xs')
    have "py_lower_char x = p \<longleftrightarrow> letter_of x p"
      using Cons.prems by (intro py_lower_char_letter) simp
    moreover have "lower xs' = ps \<longleftrightarrow> list_all2 letter_of xs' ps"
      using Cons.prems by (intro Cons.IH) simp
    ultimately show ?thesis
      using Cons by (simp add: lower_def)
  qed
qed

lemma startswith_iff: "startswith s p \<longleftrightarrow> (\<exists>r. s = p @ r)"
  by (induction s p rule: startswith.induct) auto

lemma contains_iff: "contains s sub \<longleftrightarrow> (\<exists>a b. s = a @ sub @ b)"
proof (induction s)
  case Nil
  then show ?case by auto
next
  case (Cons c cs)
  note IH = Cons.IH
  show ?case
  proof
    assume "contains (c # cs) sub"
    then consider r where "c # cs = sub @ r" | a b where "cs = a @ sub @ b"
      using IH by (auto simp: startswith_iff)
    then show "\<exists>a b. c # cs = a @ sub @ b"
    proof cases
      case 1
      then have "c # cs = [] @ sub @ r" by simp
      then show ?thesis by blast
    next
      case 2
      then have "c # cs = (c # a) @ sub @ b" by simp
      then show ?thesis by blast
    qed
  next
    assume "\<exists>a b. c # cs = a @ sub @ b"
    then obtain a b where ab: "c # cs = a @ sub @ b" by blast
    show "contains (c # cs) sub"
    proof (cases a)
      case Nil
      with ab have "startswith (c # cs) sub" by (auto simp: startswith_iff)
      then show ?thesis by simp
    next
      case (Cons x a')
      with ab have "cs = a' @ sub @ b" by simp
      then have "contains cs sub" using IH by blast
      then show ?thesis by simp
    qed
  qed
qed

lemma contains_lower_iff:
  assumes "list_all (\<lambda>p. (97 \<le> (of_char p :: nat) \<and> (of_char p :: nat) \<le> 122) \<or> p = CHR '' '') phrase"
  shows "contains (lower text) phrase \<longleftrightarrow> occurs_any_case phrase text"
proof
  assume "contains (lower text) phrase"
  then obtain a b where "map py_lower_char text = a @ (phrase @ b)"
    by (auto simp: contains_iff lower_def)
  then have "\<exists>us vs. text = us @ vs \<and> a = map py_lower_char us \<and> phrase @ b = map py_lower_char vs"
    by (simp add: map_eq_append_conv)
  then obtain before rest where t1: "text = before @ rest"
    and r: "phrase @ b = map py_lower_char rest"
    by blast
  from r have "\<exists>us vs. rest = us @ vs \<and> phrase = map py_lower_char us \<and> b = map py_lower_char vs"
    by (simp add: append_eq_map_conv)
  then obtain found after where t2: "rest = found @ after"
    and "lower found = phrase"
    unfolding lower_def by metis
  then have "list_all2 letter_of found phrase"
    using lower_eq_iff_letters [OF assms, of found] by simp
  with t1 t2 show "occurs_any_case phrase text"
    unfolding occurs_any_case_def by blast
next
  assume "occurs_any_case phrase text"
  then obtain before found after where t: "text = before @ found @ after"
    and "list_all2 letter_of found phrase"
    unfolding occurs_any_case_def by blast
  then have "lower found = phrase"
    using lower_eq_iff_letters [OF assms, of found] by simp
  with t have "lower text = lower before @ phrase @ lower after"
    by (simp add: lower_def)
  then show "contains (lower text) phrase"
    unfolding contains_iff by blast
qed

lemma phrase_letters:
  "list_all (\<lambda>p. (97 \<le> (of_char p :: nat) \<and> (of_char p :: nat) \<le> 122) \<or> p = CHR '' '') ''page not found''"
  by simp

subsection \<open>The regular expression\<close>

lemma str_append [simp]: "str (a @ b) = str a @ str b"
  by (simp add: str_def)

lemma str_Nil [simp]: "str [] = []"
  by (simp add: str_def)

lemma str_eq_iff [simp]: "str a = str b \<longleftrightarrow> a = b"
  unfolding str_def using inj_of_char [where ?'a = nat] by (rule inj_map_eq_map)

lemma str_eq_Nil_iff [simp]: "str a = [] \<longleftrightarrow> a = []"
  by (simp add: str_def)

lemma match_ignorecase_iff:
  "match_ignorecase p s = Some r \<longleftrightarrow> (\<exists>pre. s = pre @ r \<and> list_all2 matches_ignorecase p pre)"
proof (induction p s rule: match_ignorecase.induct)
  case (1 s)
  show ?case by auto
next
  case (2 p ps)
  show ?case by auto
next
  case (3 p ps c cs)
  have "(\<exists>pre. c # cs = pre @ r \<and> list_all2 matches_ignorecase (p # ps) pre)
      \<longleftrightarrow> matches_ignorecase p c \<and> (\<exists>pre'. cs = pre' @ r \<and> list_all2 matches_ignorecase ps pre')"
  proof
    assume "\<exists>pre. c # cs = pre @ r \<and> list_all2 matches_ignorecase (p # ps) pre"
    then obtain pre where pre: "c # cs = pre @ r" "list_all2 matches_ignorecase (p # ps) pre"
      by blast
    from pre(2) obtain c' pre' where "pre = c' # pre'" "matches_ignorecase p c'"
      "list_all2 matches_ignorecase ps pre'"
      by (auto simp: list_all2_Cons1)
    with pre(1) show "matches_ignorecase p c
        \<and> (\<exists>pre'. cs = pre' @ r \<and> list_all2 matches_ignorecase ps pre')"
      by auto
  next
    assume "matches_ignorecase p c
        \<and> (\<exists>pre'. cs = pre' @ r \<and> list_all2 matches_ignorecase ps pre')"
    then obtain pre' where "matches_ignorecase p c" "cs = pre' @ r"
      "list_all2 matches_ignorecase ps pre'"
      by blast
    then have "c # cs = (c # pre') @ r \<and> list_all2 matches_ignorecase (p # ps) (c # pre')"
      by simp
    then show "\<exists>pre. c # cs = pre @ r \<and> list_all2 matches_ignorecase (p # ps) pre"
      by blast
  qed
  with 3 show ?case
    by (cases "matches_ignorecase p c") simp_all
qed

lemma match_rest_iff: "match_rest s \<longleftrightarrow> s \<noteq> [] \<and> 32 \<notin> set s"
proof
  assume "match_rest s"
  then obtain n where n: "1 \<le> n" "n \<le> length s"
    and a: "list_all (\<lambda>c. c \<noteq> 32) (take n s)" and e: "at_end (drop n s)"
    by (auto simp: match_rest_def list_ex_iff)
  from e have "32 \<notin> set (drop n s)"
    by (auto simp: at_end_def)
  moreover from a have "32 \<notin> set (take n s)"
    by (auto simp: list_all_iff)
  moreover have "set s = set (take n s) \<union> set (drop n s)"
    by (metis append_take_drop_id set_append)
  ultimately have "32 \<notin> set s" by simp
  moreover from n have "s \<noteq> []" by auto
  ultimately show "s \<noteq> [] \<and> 32 \<notin> set s" by simp
next
  assume s: "s \<noteq> [] \<and> 32 \<notin> set s"
  then have "length s \<in> set [1..<Suc (length s)]"
    by (cases s) auto
  moreover have "list_all (\<lambda>c. c \<noteq> 32) (take (length s) s) \<and> at_end (drop (length s) s)"
    using s by (auto simp: list_all_iff at_end_def)
  ultimately show "match_rest s"
    unfolding match_rest_def list_ex_iff by blast
qed

lemma matches_separator:
  "list_all2 matches_ignorecase (str ''://'') sep \<longleftrightarrow> sep = str ''://''"
  by (auto simp: str_def matches_ignorecase_def list_all2_Cons1)

lemma matches_with_separator:
  "list_all2 matches_ignorecase (a @ str ''://'') pre
     \<longleftrightarrow> (\<exists>sch. pre = sch @ str ''://'' \<and> list_all2 matches_ignorecase a sch)"
proof
  assume "list_all2 matches_ignorecase (a @ str ''://'') pre"
  then obtain us vs where "pre = us @ vs" "list_all2 matches_ignorecase a us"
    "list_all2 matches_ignorecase (str ''://'') vs"
    by (auto simp: list_all2_append1)
  then show "\<exists>sch. pre = sch @ str ''://'' \<and> list_all2 matches_ignorecase a sch"
    by (auto simp: matches_separator)
next
  assume "\<exists>sch. pre = sch @ str ''://'' \<and> list_all2 matches_ignorecase a sch"
  then obtain sch where p: "pre = sch @ str ''://''" and a: "list_all2 matches_ignorecase a sch"
    by blast
  have b: "list_all2 matches_ignorecase (str ''://'') (str ''://'')"
    by (simp add: matches_separator)
  from a b show "list_all2 matches_ignorecase (a @ str ''://'') pre"
    unfolding p by (rule list_all2_appendI)
qed

lemma matches_letter:
  "p \<in> set ''https'' \<Longrightarrow> matches_ignorecase (of_char p) c \<longleftrightarrow> letter_variant c p"
  by (auto simp: matches_ignorecase_def letter_variant_def)

lemma matches_word:
  "set word \<subseteq> set ''https''
     \<Longrightarrow> list_all2 matches_ignorecase (str word) sch \<longleftrightarrow> list_all2 letter_variant sch word"
proof (induction word arbitrary: sch)
  case Nil
  then show ?case by simp
next
  case (Cons p ps)
  then have p: "p \<in> set ''https''" and ps: "set ps \<subseteq> set ''https''"
    by auto
  show ?case
  proof (cases sch)
    case Nil
    then show ?thesis by (simp add: str_def)
  next
    case (Cons c cs)
    have "list_all2 matches_ignorecase (str ps) cs \<longleftrightarrow> list_all2 letter_variant cs ps"
      using ps by (rule Cons.IH)
    with Cons matches_letter [OF p, of c] show ?thesis
      by (simp add: str_def)
  qed
qed

lemma is_valid_url_iff:
  "is_valid_url url \<longleftrightarrow>
     (\<exists>scheme rest. url = scheme @ str ''://'' @ rest
        \<and> (list_all2 letter_variant scheme ''http'' \<or> list_all2 letter_variant scheme ''https'')
        \<and> rest \<noteq> [] \<and> 32 \<notin> set rest)"
proof -
  have one: "(case match_ignorecase (str (word @ ''://'')) url of
                None \<Rightarrow> False | Some rest \<Rightarrow> match_rest rest)
      \<longleftrightarrow> (\<exists>sch rest. url = sch @ str ''://'' @ rest \<and> list_all2 letter_variant sch word
             \<and> rest \<noteq> [] \<and> 32 \<notin> set rest)"
    if w: "set word \<subseteq> set ''https''" for word
  proof -
    have "(case match_ignorecase (str (word @ ''://'')) url of
                None \<Rightarrow> False | Some rest \<Rightarrow> match_rest rest)
       \<longleftrightarrow> (\<exists>rest. match_ignorecase (str (word @ ''://'')) url = Some rest \<and> match_rest rest)"
      by (cases "match_ignorecase (str (word @ ''://'')) url") auto
    also have "\<dots> \<longleftrightarrow> (\<exists>rest pre. url = pre @ rest
        \<and> list_all2 matches_ignorecase (str word @ str ''://'') pre \<and> match_rest rest)"
      unfolding match_ignorecase_iff str_append by blast
    also have "\<dots> \<longleftrightarrow> (\<exists>rest sch. url = (sch @ str ''://'') @ rest
        \<and> list_all2 matches_ignorecase (str word) sch \<and> match_rest rest)"
      unfolding matches_with_separator by blast
    also have "\<dots> \<longleftrightarrow> (\<exists>sch rest. url = sch @ str ''://'' @ rest
        \<and> list_all2 letter_variant sch word \<and> rest \<noteq> [] \<and> 32 \<notin> set rest)"
      unfolding match_rest_iff matches_word [OF w] by auto
    finally show ?thesis .
  qed
  have h: "set ''http'' \<subseteq> set ''https''" "set ''https'' \<subseteq> set ''https''"
    by simp_all
  have "is_valid_url url \<longleftrightarrow>
      (case match_ignorecase (str (''http'' @ ''://'')) url of
         None \<Rightarrow> False | Some rest \<Rightarrow> match_rest rest)
      \<or> (case match_ignorecase (str (''https'' @ ''://'')) url of
         None \<Rightarrow> False | Some rest \<Rightarrow> match_rest rest)"
    by (simp add: is_valid_url_def str_def)
  then show ?thesis
    unfolding one [OF h(1)] one [OF h(2)] by blast
qed

lemma valid_http:
  assumes "rest \<noteq> []" and "CHR '' '' \<notin> set rest"
  shows "is_valid_url (str (''http://'' @ rest))"
proof -
  have "str (''http://'' @ rest) = str ''http'' @ str ''://'' @ str rest"
    by (simp add: str_def)
  moreover have "list_all2 letter_variant (str ''http'') ''http''"
    by (simp add: str_def letter_variant_def)
  moreover have "str rest \<noteq> []"
    using assms(1) by simp
  moreover have "32 \<notin> set (str rest)"
  proof
    assume "32 \<in> set (str rest)"
    then obtain c where "c \<in> set rest" "(of_char c :: nat) = 32"
      by (auto simp: str_def)
    moreover have "(of_char CHR '' '' :: nat) = 32"
      by simp
    ultimately have "CHR '' '' \<in> set rest"
      by (metis of_char_eq_iff)
    with assms(2) show False by simp
  qed
  ultimately show ?thesis
    unfolding is_valid_url_iff by blast
qed

lemma tab_url_valid: "is_valid_url (str ''http://a'' @ [9] @ str ''b'')"
proof -
  have "str ''http://a'' @ [9] @ str ''b'' = str ''http'' @ str ''://'' @ (str ''a'' @ [9] @ str ''b'')"
    by (simp add: str_def)
  moreover have "list_all2 letter_variant (str ''http'') ''http''"
    by (simp add: str_def letter_variant_def)
  moreover have "str ''a'' @ [9] @ str ''b'' \<noteq> [] \<and> 32 \<notin> set (str ''a'' @ [9 :: nat] @ str ''b'')"
    by (simp add: str_def)
  ultimately show ?thesis
    unfolding is_valid_url_iff by blast
qed

lemma tab_url_not_spec: "\<not> spec_valid (str ''http://a'' @ [9] @ str ''b'')"
  by (auto simp: spec_valid_def str_def whitespace_def)

lemma long_s_url_valid: "is_valid_url (str ''http'' @ [383] @ str ''://example.com'')"
proof -
  have "str ''http'' @ [383] @ str ''://example.com'' =
      (str ''http'' @ [383]) @ str ''://'' @ str ''example.com''"
    by (simp add: str_def)
  moreover have "list_all2 letter_variant (str ''http'' @ [383]) ''https''"
    by (simp add: str_def letter_variant_def)
  moreover have "str ''example.com'' \<noteq> [] \<and> 32 \<notin> set (str ''example.com'')"
    by (simp add: str_def)
  ultimately show ?thesis
    unfolding is_valid_url_iff by blast
qed


subsection \<open>Probe\<close>

lemma alive_iff:
  "fst (is_url_alive_and_valid w url verbose) \<longleftrightarrow>
     (\<exists>text. probe_get w url = ProbeResponse 200 text \<and> \<not> occurs_any_case ''page not found'' text)"
  by (auto simp: is_url_alive_and_valid_def Let_def contains_lower_iff [OF phrase_letters]
           split: probe_reply.splits)


subsection \<open>The request loop\<close>

lemma do_request_Done:
  "request_step session (Suc n) (session_get w url (Suc n)) = Done r
     \<Longrightarrow> do_request w session url n evs = Some (r, evs @ [FetchGet url])"
  by (subst do_request.simps) (simp add: Let_def)

lemma do_request_Retry:
  "request_step session (Suc n) (session_get w url (Suc n)) = Retry
     \<Longrightarrow> do_request w session url n evs =
         do_request w session url (Suc n)
           (evs @ [FetchGet url, Sleep (get_timeout (retry_opts session) (Suc n))])"
  by (subst do_request.simps) (simp add: Let_def)

lemma request_step_main:
  "request_step (main_session w) k reply =
     (case reply of
        Raised e \<Rightarrow> if 3 \<le> k \<or> \<not> retried_exceptions w e then Done (Inl e) else Retry
      | Response status text \<Rightarrow> if k = 3 \<or> status < 500 then Done (Inr (status, text)) else Retry)"
  by (auto simp: request_step_def main_session_def RetryClient_def ExponentialRetry_def
        is_skip_retry_def on_exception_def split: http_reply.splits)

lemma request_step_last: "request_step (main_session w) (Suc (Suc (Suc 0))) reply \<noteq> Retry"
  by (simp add: request_step_main numeral_3_eq_3 split: http_reply.splits)

lemma retry_iff:
  "request_step (main_session w) (Suc 0) (session_get w url (Suc 0)) = Retry
     \<longleftrightarrow> retried w url (Suc 0)"
  "request_step (main_session w) (Suc (Suc 0)) (session_get w url (Suc (Suc 0))) = Retry
     \<longleftrightarrow> retried w url (Suc (Suc 0))"
  by (auto simp: request_step_main retried_def numeral_3_eq_3 split: http_reply.splits)

lemma get_timeout_main: "get_timeout (retry_opts (main_session w)) k = backoff w k"
  by (simp add: backoff_def)

lemma backoff_eq:
  "backoff w k = min (library_start_timeout w * library_factor w ^ k) (library_max_timeout w)"
  by (simp add: backoff_def get_timeout_def main_session_def RetryClient_def ExponentialRetry_def)

lemma do_request_main_cases [case_names one two three]:
  obtains
    (one) r where
      "request_step (main_session w) (Suc 0) (session_get w url (Suc 0)) = Done r"
      "do_request w (main_session w) url 0 evs = Some (r, evs @ [FetchGet url])"
  | (two) r where
      "request_step (main_session w) (Suc 0) (session_get w url (Suc 0)) = Retry"
      "request_step (main_session w) (Suc (Suc 0)) (session_get w url (Suc (Suc 0))) = Done r"
      "do_request w (main_session w) url 0 evs =
         Some (r, evs @ [FetchGet url, Sleep (backoff w (Suc 0)), FetchGet url])"
  | (three) r where
      "request_step (main_session w) (Suc 0) (session_get w url (Suc 0)) = Retry"
      "request_step (main_session w) (Suc (Suc 0)) (session_get w url (Suc (Suc 0))) = Retry"
      "request_step (main_session w) (Suc (Suc (Suc 0))) (session_get w url (Suc (Suc (Suc 0)))) = Done r"
      "do_request w (main_session w) url 0 evs =
         Some (r, evs @ [FetchGet url, Sleep (backoff w (Suc 0)), FetchGet url, Sleep (backoff w (Suc (Suc 0))), FetchGet url])"
proof (cases "request_step (main_session w) (Suc 0) (session_get w url (Suc 0))")
  case (Done r)
  then show ?thesis
    using one do_request_Done by blast
next
  case Retry
  note r1 = this
  show ?thesis
  proof (cases "request_step (main_session w) (Suc (Suc 0)) (session_get w url (Suc (Suc 0)))")
    case (Done r)
    have "do_request w (main_session w) url 0 evs =
            Some (r, evs @ [FetchGet url, Sleep (backoff w (Suc 0)), FetchGet url])"
      by (simp add: do_request_Retry [OF r1] do_request_Done [OF Done] get_timeout_main)
    then show ?thesis
      using two r1 Done by blast
  next
    case Retry
    note r2 = this
    obtain r where r3: "request_step (main_session w) (Suc (Suc (Suc 0)))
        (session_get w url (Suc (Suc (Suc 0)))) = Done r"
      using request_step_last
      by (cases "request_step (main_session w) (Suc (Suc (Suc 0)))
        (session_get w url (Suc (Suc (Suc 0))))") auto
    have "do_request w (main_session w) url 0 evs =
            Some (r, evs @ [FetchGet url, Sleep (backoff w (Suc 0)), FetchGet url, Sleep (backoff w (Suc (Suc 0))), FetchGet url])"
      by (simp add: do_request_Retry [OF r1] do_request_Retry [OF r2] do_request_Done [OF r3]
            get_timeout_main)
    then show ?thesis
      using three r1 r2 r3 by blast
  qed
qed

subsection \<open>Events\<close>

lemma requests_append [simp]: "requests (xs @ ys) = requests xs @ requests ys"
  by (simp add: requests_def)

lemma pauses_append [simp]: "pauses (xs @ ys) = pauses xs @ pauses ys"
  by (simp add: pauses_def)

lemma requests_simps [simp]:
  "requests [] = []"
  "requests (FetchGet u # evs) = FetchGet u # requests evs"
  "requests (Sleep d # evs) = requests evs"
  "requests (Log l m # evs) = requests evs"
  "requests (ProbeGet u # evs) = requests evs"
  by (simp_all add: requests_def)

lemma pauses_simps [simp]:
  "pauses [] = []"
  "pauses (FetchGet u # evs) = pauses evs"
  "pauses (Sleep d # evs) = d # pauses evs"
  "pauses (Log l m # evs) = pauses evs"
  "pauses (ProbeGet u # evs) = pauses evs"
  by (simp_all add: pauses_def)

lemma requests_Log: "requests (map (Log l) msgs) = []"
  by (induction msgs) simp_all

lemma pauses_Log: "pauses (map (Log l) msgs) = []"
  by (induction msgs) simp_all

lemma set_debug: "e \<in> set (debug verbose msgs) \<Longrightarrow> \<exists>m. e = Log DEBUG m"
  by (auto simp: debug_def split: if_splits)

lemma traffic_append [simp]: "traffic (xs @ ys) = traffic xs @ traffic ys"
  by (simp add: traffic_def)

lemma traffic_simps [simp]:
  "traffic [] = []"
  "traffic (FetchGet u # evs) = FetchGet u # traffic evs"
  "traffic (Sleep d # evs) = Sleep d # traffic evs"
  "traffic (Log l m # evs) = traffic evs"
  "traffic (ProbeGet u # evs) = traffic evs"
  by (simp_all add: traffic_def)

lemma traffic_Logs:
  assumes "\<And>e. e \<in> set xs \<Longrightarrow> \<exists>l m. e = Log l m"
  shows "traffic xs = []"
proof -
  have "\<not> (case e of FetchGet u \<Rightarrow> True | Sleep d \<Rightarrow> True | _ \<Rightarrow> False)"
    if "e \<in> set xs" for e
    using assms [OF that] by auto
  then show ?thesis
    unfolding traffic_def filter_empty_conv by blast
qed

lemma traffic_debug [simp]: "traffic (debug verbose msgs) = []"
  by (rule traffic_Logs) (auto dest: set_debug)

lemma requests_traffic: "requests (traffic evs) = requests evs"
  by (induction evs) (auto simp: traffic_def requests_def split: event.splits)

lemma pauses_traffic: "pauses (traffic evs) = pauses evs"
  by (induction evs) (auto simp: traffic_def pauses_def split: event.splits)

lemma requests_debug [simp]: "requests (debug verbose msgs) = []"
  by (simp add: debug_def requests_Log)

lemma pauses_debug [simp]: "pauses (debug verbose msgs) = []"
  by (simp add: debug_def pauses_Log)

lemma requests_handler [simp]: "requests (handler url e # evs) = requests evs"
  by (cases e) (simp_all add: handler_def)

lemma pauses_handler [simp]: "pauses (handler url e # evs) = pauses evs"
  by (cases e) (simp_all add: handler_def)

lemma handler_Log: "\<exists>m. handler url e = Log ERROR m"
  by (cases e) (simp_all add: handler_def)

subsection \<open>fetch_url\<close>

lemma fetch_url_eq:
  assumes "do_request w session url 0 (debug verbose [FetchingUrl url, RequestHeaders]) = Some (r, evs)"
  shows "fetch_url w session url verbose =
     Some (case r of
             Inl e \<Rightarrow> (None, evs @ [handler url e])
           | Inr (status, text) \<Rightarrow>
               if status \<ge> 400
               then (None, evs @ debug verbose [StatusIs status, ResponseHeaders]
                             @ [handler url (ClientResponseError status)])
               else (case text of
                       None \<Rightarrow> (None, evs @ debug verbose [StatusIs status, ResponseHeaders]
                                         @ [handler url OtherException])
                     | Some body \<Rightarrow> (Some body, evs @ debug verbose [StatusIs status, ResponseHeaders])))"
  using assms by (simp add: fetch_url_def Let_def split: sum.splits prod.splits option.splits)

text \<open>The shape of a fetch made with the session of main.\<close>

lemma fetch_url_shape:
  obtains html tr tail where
    "fetch_url w (main_session w) url verbose =
       Some (html, debug verbose [FetchingUrl url, RequestHeaders] @ tr @ tail)"
    "tr = [FetchGet url] \<or> tr = [FetchGet url, Sleep (backoff w (Suc 0)), FetchGet url]
       \<or> tr = [FetchGet url, Sleep (backoff w (Suc 0)), FetchGet url, Sleep (backoff w (Suc (Suc 0))), FetchGet url]"
    "requests tail = []" "pauses tail = []" "\<And>e. e \<in> set tail \<Longrightarrow> \<exists>l m. e = Log l m"
    "tr = (if \<not> retried w url (Suc 0) then [FetchGet url]
           else if \<not> retried w url (Suc (Suc 0))
             then [FetchGet url, Sleep (backoff w (Suc 0)), FetchGet url]
           else [FetchGet url, Sleep (backoff w (Suc 0)), FetchGet url,
                 Sleep (backoff w (Suc (Suc 0))), FetchGet url])"
proof -
  let ?d = "debug verbose [FetchingUrl url, RequestHeaders]"
  have tail: "\<exists>html tail. fetch_url w (main_session w) url verbose = Some (html, ?d @ tr @ tail)
      \<and> requests tail = [] \<and> pauses tail = [] \<and> (\<forall>e\<in>set tail. \<exists>l m. e = Log l m)"
    if "do_request w (main_session w) url 0 ?d = Some (r, ?d @ tr)" for r tr
  proof (cases r)
    case (Inl e)
    then show ?thesis
      using fetch_url_eq [OF that] handler_Log [of url e] by auto
  next
    case (Inr p)
    obtain status body where p: "p = (status, body)" by (cases p)
    show ?thesis
    proof (cases "status \<ge> 400")
      case True
      then show ?thesis
        using fetch_url_eq [OF that] Inr p handler_Log [of url "ClientResponseError status"]
        by (auto dest: set_debug)
    next
      case False
      then show ?thesis
        using fetch_url_eq [OF that] Inr p handler_Log [of url OtherException]
        by (cases body) (auto dest: set_debug)
    qed
  qed
  show ?thesis
  proof (cases rule: do_request_main_cases [of w url ?d])
    case (one r)
    from one(1) have n: "\<not> retried w url (Suc 0)"
      using retry_iff(1) [of w url] by simp
    from tail [of r "[FetchGet url]"] one(2) obtain html tl
      where "fetch_url w (main_session w) url verbose = Some (html, ?d @ [FetchGet url] @ tl)"
        and "requests tl = []" and "pauses tl = []" and "\<forall>e\<in>set tl. \<exists>l m. e = Log l m"
      by blast
    then show ?thesis
      using n by (intro that [of html "[FetchGet url]" tl]) simp_all
  next
    case (two r)
    from two(1) have y: "retried w url (Suc 0)"
      using retry_iff(1) [of w url] by simp
    from two(2) have n: "\<not> retried w url (Suc (Suc 0))"
      using retry_iff(2) [of w url] by simp
    let ?tr = "[FetchGet url, Sleep (backoff w (Suc 0)), FetchGet url]"
    from tail [of r ?tr] two(3) obtain html tl
      where "fetch_url w (main_session w) url verbose = Some (html, ?d @ ?tr @ tl)"
        and "requests tl = []" and "pauses tl = []" and "\<forall>e\<in>set tl. \<exists>l m. e = Log l m"
      by blast
    then show ?thesis
      using y n by (intro that [of html ?tr tl]) simp_all
  next
    case (three r)
    from three(1) have y1: "retried w url (Suc 0)"
      using retry_iff(1) [of w url] by simp
    from three(2) have y2: "retried w url (Suc (Suc 0))"
      using retry_iff(2) [of w url] by simp
    let ?tr = "[FetchGet url, Sleep (backoff w (Suc 0)), FetchGet url,
                Sleep (backoff w (Suc (Suc 0))), FetchGet url]"
    from tail [of r ?tr] three(4) obtain html tl
      where "fetch_url w (main_session w) url verbose = Some (html, ?d @ ?tr @ tl)"
        and "requests tl = []" and "pauses tl = []" and "\<forall>e\<in>set tl. \<exists>l m. e = Log l m"
      by blast
    then show ?thesis
      using y1 y2 by (intro that [of html ?tr tl]) simp_all
  qed
qed

lemma fetch_url_traffic:
  "\<exists>html evs. fetch_url w (main_session w) url verbose = Some (html, evs)
     \<and> traffic evs =
         (if \<not> retried w url (Suc 0) then [FetchGet url]
          else if \<not> retried w url (Suc (Suc 0))
            then [FetchGet url, Sleep (backoff w (Suc 0)), FetchGet url]
          else [FetchGet url, Sleep (backoff w (Suc 0)), FetchGet url,
                Sleep (backoff w (Suc (Suc 0))), FetchGet url])"
proof (rule fetch_url_shape [of w url verbose])
  fix html tr tail
  assume f: "fetch_url w (main_session w) url verbose =
       Some (html, debug verbose [FetchingUrl url, RequestHeaders] @ tr @ tail)"
    and d: "tr = [FetchGet url] \<or> tr = [FetchGet url, Sleep (backoff w (Suc 0)), FetchGet url]
       \<or> tr = [FetchGet url, Sleep (backoff w (Suc 0)), FetchGet url, Sleep (backoff w (Suc (Suc 0))), FetchGet url]"
    and l: "\<And>e. e \<in> set tail \<Longrightarrow> \<exists>l m. e = Log l m"
    and c: "tr = (if \<not> retried w url (Suc 0) then [FetchGet url]
           else if \<not> retried w url (Suc (Suc 0))
             then [FetchGet url, Sleep (backoff w (Suc 0)), FetchGet url]
           else [FetchGet url, Sleep (backoff w (Suc 0)), FetchGet url,
                 Sleep (backoff w (Suc (Suc 0))), FetchGet url])"
  have "traffic tr = tr"
    using d by auto
  then have "traffic (debug verbose [FetchingUrl url, RequestHeaders] @ tr @ tail) = tr"
    using traffic_Logs [OF l] by simp
  with f c show ?thesis
    by metis
qed

lemma fetch_url_total: "\<exists>html evs. fetch_url w (main_session w) url verbose = Some (html, evs)"
  by (rule fetch_url_shape [of w url verbose]) blast

lemma fetch_url_events:
  assumes "fetch_url w (main_session w) url verbose = Some (html, evs)" and "e \<in> set evs"
  shows "e = FetchGet url \<or> (\<exists>d. e = Sleep d) \<or> (\<exists>l m. e = Log l m)"
proof (rule fetch_url_shape [of w url verbose])
  fix html' tr tail
  assume "fetch_url w (main_session w) url verbose =
       Some (html', debug verbose [FetchingUrl url, RequestHeaders] @ tr @ tail)"
    and tr: "tr = [FetchGet url] \<or> tr = [FetchGet url, Sleep (backoff w (Suc 0)), FetchGet url]
       \<or> tr = [FetchGet url, Sleep (backoff w (Suc 0)), FetchGet url, Sleep (backoff w (Suc (Suc 0))), FetchGet url]"
    and tail: "\<And>e. e \<in> set tail \<Longrightarrow> \<exists>l m. e = Log l m"
  with assms have "e \<in> set (debug verbose [FetchingUrl url, RequestHeaders]) \<or> e \<in> set tr \<or> e \<in> set tail"
    by auto
  then show ?thesis
    using tr tail by (auto dest: set_debug)
qed

lemma fetch_url_attempts:
  assumes "fetch_url w (main_session w) url verbose = Some (html, evs)"
  shows "length (requests evs) \<in> {1, 2, 3}
     \<and> pauses evs = map (\<lambda>k. backoff w (Suc k)) [0..<length (requests evs) - 1]"
proof (rule fetch_url_shape [of w url verbose])
  fix html' tr tail
  assume "fetch_url w (main_session w) url verbose =
       Some (html', debug verbose [FetchingUrl url, RequestHeaders] @ tr @ tail)"
    and tr: "tr = [FetchGet url] \<or> tr = [FetchGet url, Sleep (backoff w (Suc 0)), FetchGet url]
       \<or> tr = [FetchGet url, Sleep (backoff w (Suc 0)), FetchGet url, Sleep (backoff w (Suc (Suc 0))), FetchGet url]"
    and tail: "requests tail = []" "pauses tail = []"
  with assms have "requests evs = requests tr" "pauses evs = pauses tr"
    by auto
  then show ?thesis
    using tr by (auto simp: upt_conv_Cons)
qed

subsection \<open>Extraction\<close>

lemma combine_length: "length (combine url ts ps) = max (length ts) (length ps)"
  by (simp add: combine_def)

lemma combine_nth:
  "i < max (length ts) (length ps) \<Longrightarrow>
     combine url ts ps ! i =
       \<lparr>row_url = url, row_title = (if i < length ts then ts ! i else []),
        row_paragraph = (if i < length ps then ps ! i else [])\<rparr>"
  by (simp add: combine_def)

lemma combine_url: "r \<in> set (combine url ts ps) \<Longrightarrow> row_url r = url"
  by (auto simp: combine_def)

lemma extract_records_url:
  "extract_records w url html = (Inr rows, evs) \<Longrightarrow> r \<in> set rows \<Longrightarrow> row_url r = url"
  by (auto simp: extract_records_def Let_def dest: combine_url
        split: soup_result.splits dom_query.splits if_splits)

lemma extract_records_events:
  "e \<in> set (snd (extract_records w url html)) \<Longrightarrow> \<exists>l m. e = Log l m"
  by (auto simp: extract_records_def Let_def split: soup_result.splits dom_query.splits if_splits)

lemma after_fetch_rows:
  "after_fetch w url html = (Inr rows, evs) \<Longrightarrow> r \<in> set rows
     \<Longrightarrow> row_url r = url \<and> (\<exists>body. html = Some body \<and> body \<noteq> [])"
  by (auto simp: after_fetch_def dest: extract_records_url split: option.splits if_splits)

lemma after_fetch_events:
  "e \<in> set (snd (after_fetch w url html)) \<Longrightarrow> \<exists>l m. e = Log l m"
  by (auto simp: after_fetch_def dest: extract_records_events split: option.splits if_splits)

lemma scrape_data_total: "\<exists>r evs. scrape_data w (main_session w) url verbose = Some (r, evs)"
  using fetch_url_total [of w url verbose]
  by (auto simp: scrape_data_def split: prod.splits)

lemma scrape_data_rows:
  assumes "scrape_data w (main_session w) url verbose = Some (Inr rows, evs)" and "r \<in> set rows"
  shows "row_url r = url \<and>
     (\<exists>body evs'. fetch_url w (main_session w) url verbose = Some (Some body, evs') \<and> body \<noteq> [])"
proof -
  obtain html evs1 where f: "fetch_url w (main_session w) url verbose = Some (html, evs1)"
    using fetch_url_total by blast
  obtain evs2 where "after_fetch w url html = (Inr rows, evs2)"
    using assms(1) f by (auto simp: scrape_data_def split: prod.splits)
  from after_fetch_rows [OF this assms(2)] f show ?thesis
    by auto
qed

lemma scrape_data_events:
  assumes "scrape_data w (main_session w) url verbose = Some (r, evs)" and "e \<in> set evs"
  shows "e = FetchGet url \<or> (\<exists>d. e = Sleep d) \<or> (\<exists>l m. e = Log l m)"
proof -
  obtain html evs1 where f: "fetch_url w (main_session w) url verbose = Some (html, evs1)"
    using fetch_url_total by blast
  then have "evs = evs1 @ snd (after_fetch w url html)"
    using assms(1) by (auto simp: scrape_data_def split: prod.splits)
  with assms(2) have "e \<in> set evs1 \<or> e \<in> set (snd (after_fetch w url html))"
    by auto
  then show ?thesis
    using fetch_url_events [OF f] after_fetch_events by blast
qed

lemma records_of_Some:
  "scrape_data w (main_session w) url verbose = Some (Inr rows, evs)
     \<Longrightarrow> records_of w verbose url = rows"
  by (simp add: records_of_def)

lemma records_of_rows:
  assumes "r \<in> set (records_of w verbose url)"
  shows "row_url r = url \<and>
     (\<exists>body evs. fetch_url w (main_session w) url verbose = Some (Some body, evs) \<and> body \<noteq> [])"
proof -
  obtain res evs where s: "scrape_data w (main_session w) url verbose = Some (res, evs)"
    using scrape_data_total by blast
  show ?thesis
  proof (cases res)
    case (Inl e)
    with s assms show ?thesis by (simp add: records_of_def)
  next
    case (Inr rows)
    with s assms have "r \<in> set rows" by (simp add: records_of_def)
    with s Inr show ?thesis using scrape_data_rows by blast
  qed
qed

subsection \<open>The first stage\<close>

lemma check_urls_fst: "fst (check_urls w verbose urls acc evs) = acc @ alive_urls w verbose urls"
  by (induction urls arbitrary: acc evs) (auto simp: alive_urls_def split: prod.splits)

lemma alive_events:
  "e \<in> set (snd (is_url_alive_and_valid w url verbose)) \<Longrightarrow> e = ProbeGet url \<or> (\<exists>l m. e = Log l m)"
  by (auto simp: is_url_alive_and_valid_def Let_def dest: set_debug
        split: probe_reply.splits if_splits)

lemma check_urls_events:
  "e \<in> set (snd (check_urls w verbose urls acc evs)) \<Longrightarrow>
     e \<in> set evs \<or> (\<exists>l m. e = Log l m) \<or> (\<exists>u\<in>set urls. is_valid_url u \<and> e = ProbeGet u)"
proof (induction urls arbitrary: acc evs)
  case Nil
  then show ?case by simp
next
  case (Cons url urls)
  show ?case
  proof (cases "is_valid_url url")
    case True
    obtain alive evs' where a: "is_url_alive_and_valid w url verbose = (alive, evs')"
      by (cases "is_url_alive_and_valid w url verbose")
    with True Cons.prems have "e \<in> set (snd (check_urls w verbose urls
        (if alive then acc @ [url] else acc) (evs @ evs')))"
      by simp
    from Cons.IH [OF this] have "e \<in> set evs \<or> e \<in> set evs' \<or> (\<exists>l m. e = Log l m)
        \<or> (\<exists>u\<in>set urls. is_valid_url u \<and> e = ProbeGet u)"
      by auto
    moreover have "e \<in> set evs' \<Longrightarrow> e = ProbeGet url \<or> (\<exists>l m. e = Log l m)"
      using alive_events [of e w url verbose] a by simp
    ultimately show ?thesis
      using True by auto
  next
    case False
    with Cons.prems have "e \<in> set (snd (check_urls w verbose urls acc
        (evs @ [Log WARNING (InvalidUrlSkipped url)])))"
      by simp
    from Cons.IH [OF this] show ?thesis
      by auto
  qed
qed

subsection \<open>gather\<close>

lemma as_completed_ok:
  "\<forall>i\<in>set order. i < length tasks \<Longrightarrow> \<forall>t\<in>set tasks. \<exists>rows evs. t = (Inr rows, evs)
     \<Longrightarrow> fst (as_completed order tasks) = Inr (map (\<lambda>i. (i, projr (fst (tasks ! i)))) order)"
proof (induction order)
  case Nil
  then show ?case by simp
next
  case (Cons i order)
  then have "tasks ! i \<in> set tasks" by simp
  with Cons.prems(2) obtain rows evs where t: "tasks ! i = (Inr rows, evs)" by blast
  have "fst (as_completed order tasks) = Inr (map (\<lambda>i. (i, projr (fst (tasks ! i)))) order)"
    using Cons by simp
  then obtain evs' where "as_completed order tasks =
      (Inr (map (\<lambda>i. (i, projr (fst (tasks ! i)))) order), evs')"
    by (cases "as_completed order tasks") simp
  with t show ?case by simp
qed

lemma as_completed_Inr:
  "fst (as_completed order tasks) = Inr res \<Longrightarrow> i \<in> set order
     \<Longrightarrow> \<exists>rows evs. tasks ! i = (Inr rows, evs)"
proof (induction order arbitrary: res)
  case Nil
  then show ?case by simp
next
  case (Cons j order)
  obtain a evs where t: "tasks ! j = (a, evs)" by (cases "tasks ! j")
  obtain b evs' where r: "as_completed order tasks = (b, evs')"
    by (cases "as_completed order tasks")
  from Cons.prems(1) t obtain rows where a: "a = Inr rows"
    by (cases a) simp_all
  from Cons.prems(1) t r a obtain res' where b: "b = Inr res'"
    by (cases b) simp_all
  show ?case
  proof (cases "i = j")
    case True
    with t a show ?thesis by simp
  next
    case False
    with Cons.prems(2) have "i \<in> set order" by simp
    moreover from r b have "fst (as_completed order tasks) = Inr res'" by simp
    ultimately show ?thesis using Cons.IH by blast
  qed
qed

lemma as_completed_events:
  "e \<in> set (snd (as_completed order tasks)) \<Longrightarrow> \<exists>i\<in>set order. e \<in> set (snd (tasks ! i))"
proof (induction order)
  case Nil
  then show ?case by simp
next
  case (Cons j order)
  obtain a evs where t: "tasks ! j = (a, evs)" by (cases "tasks ! j")
  obtain b evs' where r: "as_completed order tasks = (b, evs')"
    by (cases "as_completed order tasks")
  have "e \<in> set evs \<or> e \<in> set evs'"
    using Cons.prems t r by (cases a; cases b) simp_all
  then show ?case
  proof
    assume "e \<in> set evs"
    with t show ?thesis by simp
  next
    assume "e \<in> set evs'"
    with r Cons.IH show ?thesis by simp
  qed
qed

lemma insort_key_map:
  "insort_key f (g x) (map g ys) = map g (insort_key (\<lambda>x. f (g x)) x ys)"
  by (induction ys) simp_all

lemma sort_key_map: "sort_key f (map g xs) = map g (sort_key (\<lambda>x. f (g x)) xs)"
  by (induction xs) (simp_all add: insort_key_map)

lemma sort_completion_order: "sort (sort_key finish [0..<n]) = [0..<n]"
  by (rule properties_for_sort) simp_all

lemma sorted_results:
  "map snd (sort_key fst (map (\<lambda>i. (i, h i)) (sort_key finish [0..<n]))) = map h [0..<n]"
  by (simp add: sort_key_map sort_completion_order o_def)

lemma gather_ok:
  assumes "\<forall>t\<in>set tasks. \<exists>rows evs. t = (Inr rows, evs)"
  shows "fst (gather finish tasks) = Inr (map (\<lambda>t. projr (fst t)) tasks)"
proof -
  let ?order = "sort_key finish [0..<length tasks]"
  let ?h = "\<lambda>i. projr (fst (tasks ! i))"
  have ok: "\<forall>i\<in>set ?order. i < length tasks"
    by simp
  have "fst (as_completed ?order tasks) = Inr (map (\<lambda>i. (i, ?h i)) ?order)"
    by (rule as_completed_ok [OF ok assms])
  then obtain evs where "as_completed ?order tasks = (Inr (map (\<lambda>i. (i, ?h i)) ?order), evs)"
    by (cases "as_completed ?order tasks") simp
  then have "fst (gather finish tasks) =
      Inr (map snd (sort_key fst (map (\<lambda>i. (i, ?h i)) ?order)))"
    unfolding gather_def by simp
  also have "map snd (sort_key fst (map (\<lambda>i. (i, ?h i)) ?order)) = map ?h [0..<length tasks]"
    by (rule sorted_results)
  also have "map ?h [0..<length tasks] = map (\<lambda>t. projr (fst t)) tasks"
    by (rule nth_equalityI) simp_all
  finally show ?thesis .
qed

lemma gather_Inr:
  assumes "fst (gather finish tasks) = Inr rs"
  shows "\<forall>t\<in>set tasks. \<exists>rows evs. t = (Inr rows, evs)"
proof
  fix t assume "t \<in> set tasks"
  then obtain i where i: "i < length tasks" "t = tasks ! i"
    by (auto simp: in_set_conv_nth)
  let ?order = "sort_key finish [0..<length tasks]"
  from assms obtain res where "fst (as_completed ?order tasks) = Inr res"
    by (auto simp: gather_def split: prod.splits sum.splits)
  moreover from i have "i \<in> set ?order" by simp
  ultimately show "\<exists>rows evs. t = (Inr rows, evs)"
    using as_completed_Inr i(2) by blast
qed

lemma gather_events:
  assumes "e \<in> set (snd (gather finish tasks))"
  shows "\<exists>t\<in>set tasks. e \<in> set (snd t)"
proof -
  let ?order = "sort_key finish [0..<length tasks]"
  from assms have "e \<in> set (snd (as_completed ?order tasks))"
    by (auto simp: gather_def split: prod.splits sum.splits)
  then obtain i where "i \<in> set ?order" "e \<in> set (snd (tasks ! i))"
    using as_completed_events by blast
  then show ?thesis by auto
qed

subsection \<open>main\<close>

lemma those_map_Some:
  "\<forall>x\<in>set xs. \<exists>y. f x = Some y \<Longrightarrow> those (map f xs) = Some (map (\<lambda>x. the (f x)) xs)"
  by (induction xs) auto

lemma concat_filter_nonempty: "concat (filter (\<lambda>sublist. sublist \<noteq> []) xs) = concat xs"
  by (induction xs) auto

lemma main_unfold:
  "main w finish urls filename verbose =
     (if alive_urls w verbose urls = []
      then Some (Inr \<lparr>dataset = [], written = None\<rparr>,
                 snd (check_urls w verbose urls [] [Log INFO CheckingUrls])
                   @ [Log WARNING NoValidAliveUrls])
      else (case gather finish (map (\<lambda>url. the (scrape_data w (main_session w) url verbose))
                                 (alive_urls w verbose urls)) of
              (Inl e, evs') \<Rightarrow>
                Some (Inl e, snd (check_urls w verbose urls [] [Log INFO CheckingUrls]) @ evs')
            | (Inr all_results, evs') \<Rightarrow>
                if concat all_results = []
                then Some (Inr \<lparr>dataset = [], written = None\<rparr>,
                           snd (check_urls w verbose urls [] [Log INFO CheckingUrls]) @ evs'
                             @ [Log WARNING NoDataScraped])
                else (case save w filename (concat all_results) of
                        (out, evs'') \<Rightarrow>
                          Some (Inr out, snd (check_urls w verbose urls [] [Log INFO CheckingUrls])
                                  @ evs' @ evs''))))"
proof -
  obtain V evs where c: "check_urls w verbose urls [] [Log INFO CheckingUrls] = (V, evs)"
    by (cases "check_urls w verbose urls [] [Log INFO CheckingUrls]")
  then have V: "V = alive_urls w verbose urls"
    using check_urls_fst [of w verbose urls "[]" "[Log INFO CheckingUrls]"] by simp
  have S: "RetryClient False (ExponentialRetry w 3) = main_session w"
    by (simp add: main_session_def)
  have T: "those (map (\<lambda>url. scrape_data w (main_session w) url verbose) V) =
      Some (map (\<lambda>url. the (scrape_data w (main_session w) url verbose)) V)"
    by (rule those_map_Some) (use scrape_data_total in auto)
  show ?thesis
    unfolding main_def Let_def S c
    by (simp add: T V [symmetric] concat_filter_nonempty split: prod.splits sum.splits)
qed

lemma tasks_all_Inr_iff:
  "(\<forall>t\<in>set (map (\<lambda>url. the (scrape_data w (main_session w) url verbose)) V).
        \<exists>rows evs. t = (Inr rows, evs))
     \<longleftrightarrow> (\<forall>url\<in>set V. \<exists>rows evs. scrape_data w (main_session w) url verbose = Some (Inr rows, evs))"
proof -
  have "(\<exists>rows evs. the (scrape_data w (main_session w) url verbose) = (Inr rows, evs))
      \<longleftrightarrow> (\<exists>rows evs. scrape_data w (main_session w) url verbose = Some (Inr rows, evs))" for url
    using scrape_data_total [of w url verbose] by auto
  then show ?thesis by simp
qed

lemma tasks_results:
  assumes "\<forall>url\<in>set V. \<exists>rows evs. scrape_data w (main_session w) url verbose = Some (Inr rows, evs)"
  shows "map (\<lambda>t. projr (fst t)) (map (\<lambda>url. the (scrape_data w (main_session w) url verbose)) V)
     = map (records_of w verbose) V"
  using assms by (auto simp: records_of_def)

text \<open>A run that returns has the records of the alive URLs, in their order, as its dataset.\<close>

lemma main_Inr:
  assumes "main w finish urls filename verbose = Some (Inr out, evs)"
  shows "dataset out = concat (map (records_of w verbose) (alive_urls w verbose urls))"
    and "\<forall>url\<in>set (alive_urls w verbose urls).
           \<exists>rows evs. scrape_data w (main_session w) url verbose = Some (Inr rows, evs)"
    and "out = (if concat (map (records_of w verbose) (alive_urls w verbose urls)) = []
                then \<lparr>dataset = [], written = None\<rparr>
                else fst (save w filename (concat (map (records_of w verbose) (alive_urls w verbose urls)))))"
proof -
  let ?V = "alive_urls w verbose urls"
  let ?tasks = "map (\<lambda>url. the (scrape_data w (main_session w) url verbose)) ?V"
  have all: "\<forall>url\<in>set ?V. \<exists>rows evs. scrape_data w (main_session w) url verbose = Some (Inr rows, evs)"
  proof (cases "?V = []")
    case True
    then show ?thesis by simp
  next
    case False
    with assms obtain rs where "fst (gather finish ?tasks) = Inr rs"
      unfolding main_unfold by (auto split: prod.splits sum.splits if_splits)
    from gather_Inr [OF this] show ?thesis
      unfolding tasks_all_Inr_iff .
  qed
  then show "\<forall>url\<in>set ?V. \<exists>rows evs. scrape_data w (main_session w) url verbose = Some (Inr rows, evs)" .
  have g: "fst (gather finish ?tasks) = Inr (map (records_of w verbose) ?V)"
    using gather_ok [of ?tasks finish] all tasks_results [OF all]
    unfolding tasks_all_Inr_iff by simp
  show o: "out = (if concat (map (records_of w verbose) ?V) = []
                then \<lparr>dataset = [], written = None\<rparr>
                else fst (save w filename (concat (map (records_of w verbose) ?V))))"
  proof (cases "?V = []")
    case True
    with assms show ?thesis unfolding main_unfold by simp
  next
    case False
    with assms g show ?thesis
      unfolding main_unfold by (auto split: prod.splits sum.splits if_splits)
  qed
  show "dataset out = concat (map (records_of w verbose) ?V)"
    unfolding o by (simp add: save_def Let_def)
qed

lemma main_returns:
  assumes "\<forall>url\<in>set (alive_urls w verbose urls).
           \<exists>rows evs. scrape_data w (main_session w) url verbose = Some (Inr rows, evs)"
  shows "\<exists>out evs. main w finish urls filename verbose = Some (Inr out, evs)
     \<and> (dataset out = [] \<longrightarrow> written out = None
          \<and> (Log WARNING NoValidAliveUrls \<in> set evs \<or> Log WARNING NoDataScraped \<in> set evs))"
proof -
  let ?V = "alive_urls w verbose urls"
  let ?tasks = "map (\<lambda>url. the (scrape_data w (main_session w) url verbose)) ?V"
  have g: "fst (gather finish ?tasks) = Inr (map (records_of w verbose) ?V)"
    using gather_ok [of ?tasks finish] assms tasks_results [OF assms]
    unfolding tasks_all_Inr_iff by simp
  then obtain evs' where g': "gather finish ?tasks = (Inr (map (records_of w verbose) ?V), evs')"
    by (cases "gather finish ?tasks") simp
  show ?thesis
    unfolding main_unfold g'
    by (auto simp: save_def Let_def)
qed

lemma main_events:
  assumes "main w finish urls filename verbose = Some (r, evs)" and "e \<in> set evs"
  shows "(\<exists>l m. e = Log l m) \<or> (\<exists>d. e = Sleep d)
     \<or> (\<exists>u\<in>set urls. is_valid_url u \<and> e = ProbeGet u)
     \<or> (\<exists>u\<in>set (alive_urls w verbose urls). e = FetchGet u)"
proof -
  let ?V = "alive_urls w verbose urls"
  let ?tasks = "map (\<lambda>url. the (scrape_data w (main_session w) url verbose)) ?V"
  let ?c = "snd (check_urls w verbose urls [] [Log INFO CheckingUrls])"
  have "e \<in> set ?c \<or> e \<in> set (snd (gather finish ?tasks)) \<or> (\<exists>l m. e = Log l m)"
    using assms unfolding main_unfold
    by (auto simp: save_def Let_def split: prod.splits sum.splits if_splits)
  moreover have "e \<in> set ?c \<Longrightarrow> ?thesis"
    using check_urls_events [of e w verbose urls "[]" "[Log INFO CheckingUrls]"] by auto
  moreover have "e \<in> set (snd (gather finish ?tasks)) \<Longrightarrow> ?thesis"
  proof -
    assume "e \<in> set (snd (gather finish ?tasks))"
    then obtain t where "t \<in> set ?tasks" "e \<in> set (snd t)"
      using gather_events by blast
    then obtain u where u: "u \<in> set ?V" "e \<in> set (snd (the (scrape_data w (main_session w) u verbose)))"
      by auto
    obtain res evs' where "scrape_data w (main_session w) u verbose = Some (res, evs')"
      using scrape_data_total by blast
    with u(2) scrape_data_events [OF this, of e] have
      "e = FetchGet u \<or> (\<exists>d. e = Sleep d) \<or> (\<exists>l m. e = Log l m)" by simp
    with u(1) show ?thesis by blast
  qed
  ultimately show ?thesis by blast
qed

subsection \<open>Runs of main\<close>

lemma main_total: "\<exists>r evs. main w finish urls filename verbose = Some (r, evs)"
  unfolding main_unfold by (simp split: prod.splits sum.splits)

lemma main_raises:
  assumes "url \<in> set (alive_urls w verbose urls)"
    and "scrape_data w (main_session w) url verbose = Some (Inl e, evs0)"
  shows "\<exists>evs. main w finish urls filename verbose = Some (Inl ParserError, evs)"
proof -
  obtain r evs where m: "main w finish urls filename verbose = Some (r, evs)"
    using main_total by blast
  show ?thesis
  proof (cases r)
    case (Inl e')
    with m show ?thesis by (cases e') simp
  next
    case (Inr out)
    with m have "\<exists>rows evs. scrape_data w (main_session w) url verbose = Some (Inr rows, evs)"
      using main_Inr(2) assms(1) by blast
    with assms(2) show ?thesis by simp
  qed
qed

lemma fetch_url_first:
  assumes "session_get w url (Suc 0) = Response status body" and "status < 500"
  shows "\<exists>html evs. fetch_url w (main_session w) url verbose = Some (html, evs)
      \<and> requests evs = [FetchGet url]
      \<and> (400 \<le> status \<longrightarrow> html = None \<and> Log ERROR (ClientError url status) \<in> set evs)
      \<and> (status < 400 \<longrightarrow> html = body)"
proof -
  let ?d = "debug verbose [FetchingUrl url, RequestHeaders]"
  have "request_step (main_session w) (Suc 0) (session_get w url (Suc 0)) = Done (Inr (status, body))"
    using assms by (simp add: request_step_main)
  then have "do_request w (main_session w) url 0 ?d = Some (Inr (status, body), ?d @ [FetchGet url])"
    by (rule do_request_Done)
  from fetch_url_eq [OF this] show ?thesis
    by (cases body) (auto simp: handler_def)
qed


subsection \<open>The example world\<close>

lemma fetch_url_first_value:
  assumes "session_get w url (Suc 0) = Response status body" and "status < 500"
  shows "fetch_url w (main_session w) url False =
     Some (if 400 \<le> status then (None, [FetchGet url, Log ERROR (ClientError url status)])
           else (case body of
                   None \<Rightarrow> (None, [FetchGet url, Log ERROR (UnexpectedError url)])
                 | Some b \<Rightarrow> (Some b, [FetchGet url])))"
proof -
  have "request_step (main_session w) (Suc 0) (session_get w url (Suc 0)) = Done (Inr (status, body))"
    using assms by (simp add: request_step_main)
  then have "do_request w (main_session w) url 0 (debug False [FetchingUrl url, RequestHeaders]) =
      Some (Inr (status, body), debug False [FetchingUrl url, RequestHeaders] @ [FetchGet url])"
    by (rule do_request_Done)
  from fetch_url_eq [OF this] show ?thesis
    by (simp add: debug_def handler_def split: option.splits)
qed

lemma scrape_data_value:
  assumes "fetch_url w s url verbose = Some (html, evs)"
  shows "scrape_data w s url verbose =
     Some (fst (after_fetch w url html), evs @ snd (after_fetch w url html))"
  using assms by (simp add: scrape_data_def split: prod.splits)

lemma example_strip:
  "strip ''Intro'' = ''Intro''" "strip ''A'' = ''A''" "strip ''B'' = ''B''"
  "strip '' '' = []" "strip [] = []" "strip ''One'' = ''One''" "strip '' Two '' = ''Two''"
  "strip ''a'' = ''a''" "strip ''b'' = ''b''" "strip ''c'' = ''c''" "strip ''d'' = ''d''"
  "strip ''e'' = ''e''"
  by code_simp+

lemma example_valid:
  "is_valid_url (str ''http://gone.test/'')" "is_valid_url (str ''http://good.test/page'')"
  "is_valid_url (str ''http://bad.test/'')" "is_valid_url (str ''http://empty.test/'')"
  "is_valid_url (str ''http://soft.test/'')"
  using valid_http [of "''gone.test/''"] valid_http [of "''good.test/page''"]
    valid_http [of "''bad.test/''"] valid_http [of "''empty.test/''"]
    valid_http [of "''soft.test/''"]
  by simp_all

lemma example_invalid: "\<not> is_valid_url (str ''not-a-url'')"
  by (simp add: is_valid_url_def str_def matches_ignorecase_def)

lemma example_ok_page: "\<not> contains (lower ''<html>ok</html>'') ''page not found''"
  by code_simp

lemma example_probe:
  "url \<noteq> (str ''http://soft.test/'') \<Longrightarrow> url \<noteq> (str ''http://down.test/'')
     \<Longrightarrow> fst (is_url_alive_and_valid example_world url False)"
  by (simp add: is_url_alive_and_valid_def example_world_def Let_def debug_def example_ok_page)

lemma example_alive:
  "alive_urls example_world False [str ''http://gone.test/'', str ''not-a-url'', str ''http://good.test/page'']
     = [str ''http://gone.test/'', str ''http://good.test/page'']"
  by (simp add: alive_urls_def example_valid example_invalid example_probe)

lemma example_fetch_good:
  "fetch_url example_world (main_session example_world) (str ''http://good.test/page'') False =
     Some (Some ''<h1>Intro</h1><p>A</p><p>B</p>'', [FetchGet (str ''http://good.test/page'')])"
proof -
  have "session_get example_world (str ''http://good.test/page'') (Suc 0) =
      Response 200 (Some ''<h1>Intro</h1><p>A</p><p>B</p>'')"
    by (simp add: example_world_def)
  from fetch_url_first_value [OF this] show ?thesis by simp
qed

lemma example_fetch_gone:
  "fetch_url example_world (main_session example_world) (str ''http://gone.test/'') False =
     Some (None, [FetchGet (str ''http://gone.test/''), Log ERROR (ClientError (str ''http://gone.test/'') 404)])"
proof -
  have "session_get example_world (str ''http://gone.test/'') (Suc 0) = Response 404 (Some ''gone'')"
    by (simp add: example_world_def)
  from fetch_url_first_value [OF this] show ?thesis by simp
qed

lemma example_scrape_good:
  "scrape_data example_world (main_session example_world) (str ''http://good.test/page'') False =
     Some (Inr [\<lparr>row_url = str ''http://good.test/page'', row_title = ''Intro'', row_paragraph = ''A''\<rparr>,
                \<lparr>row_url = str ''http://good.test/page'', row_title = [], row_paragraph = ''B''\<rparr>],
           [FetchGet (str ''http://good.test/page'')])"
  unfolding scrape_data_value [OF example_fetch_good]
  by (simp add: after_fetch_def extract_records_def example_world_def combine_def example_strip
        upt_conv_Cons)

lemma example_scrape_gone:
  "scrape_data example_world (main_session example_world) (str ''http://gone.test/'') False =
     Some (Inr [], [FetchGet (str ''http://gone.test/''), Log ERROR (ClientError (str ''http://gone.test/'') 404)])"
  unfolding scrape_data_value [OF example_fetch_gone]
  by (simp add: after_fetch_def)

lemma example_run:
  "\<exists>evs. main example_world finish [str ''http://gone.test/'', str ''not-a-url'', str ''http://good.test/page'']
       ''out'' False =
     Some (Inr \<lparr>dataset =
                  [\<lparr>row_url = str ''http://good.test/page'', row_title = ''Intro'', row_paragraph = ''A''\<rparr>,
                   \<lparr>row_url = str ''http://good.test/page'', row_title = [], row_paragraph = ''B''\<rparr>],
                written = Some (''out.csv'',
                  [\<lparr>row_url = str ''http://good.test/page'', row_title = ''Intro'', row_paragraph = ''A''\<rparr>,
                   \<lparr>row_url = str ''http://good.test/page'', row_title = [], row_paragraph = ''B''\<rparr>])\<rparr>,
           evs)"
proof -
  let ?urls = "[str ''http://gone.test/'', str ''not-a-url'', str ''http://good.test/page'']"
  have "\<forall>url\<in>set (alive_urls example_world False ?urls).
      \<exists>rows evs. scrape_data example_world (main_session example_world) url False = Some (Inr rows, evs)"
    unfolding example_alive using example_scrape_good example_scrape_gone by simp
  from main_returns [OF this] obtain out evs
    where m: "main example_world finish ?urls ''out'' False = Some (Inr out, evs)"
    by blast
  have "concat (map (records_of example_world False) (alive_urls example_world False ?urls)) =
      [\<lparr>row_url = str ''http://good.test/page'', row_title = ''Intro'', row_paragraph = ''A''\<rparr>,
       \<lparr>row_url = str ''http://good.test/page'', row_title = [], row_paragraph = ''B''\<rparr>]"
    unfolding example_alive
    by (simp add: records_of_Some [OF example_scrape_good] records_of_Some [OF example_scrape_gone])
  note o = main_Inr(3) [OF m, unfolded this]
  have "fst (save example_world ''out''
      [\<lparr>row_url = str ''http://good.test/page'', row_title = ''Intro'', row_paragraph = ''A''\<rparr>,
       \<lparr>row_url = str ''http://good.test/page'', row_title = [], row_paragraph = ''B''\<rparr>]) =
     \<lparr>dataset =
                  [\<lparr>row_url = str ''http://good.test/page'', row_title = ''Intro'', row_paragraph = ''A''\<rparr>,
                   \<lparr>row_url = str ''http://good.test/page'', row_title = [], row_paragraph = ''B''\<rparr>],
                written = Some (''out.csv'',
                  [\<lparr>row_url = str ''http://good.test/page'', row_title = ''Intro'', row_paragraph = ''A''\<rparr>,
                   \<lparr>row_url = str ''http://good.test/page'', row_title = [], row_paragraph = ''B''\<rparr>])\<rparr>"
    by (simp add: save_def Let_def endswith_def example_world_def)
  with o have "out = \<lparr>dataset =
                  [\<lparr>row_url = str ''http://good.test/page'', row_title = ''Intro'', row_paragraph = ''A''\<rparr>,
                   \<lparr>row_url = str ''http://good.test/page'', row_title = [], row_paragraph = ''B''\<rparr>],
                written = Some (''out.csv'',
                  [\<lparr>row_url = str ''http://good.test/page'', row_title = ''Intro'', row_paragraph = ''A''\<rparr>,
                   \<lparr>row_url = str ''http://good.test/page'', row_title = [], row_paragraph = ''B''\<rparr>])\<rparr>"
    by simp
  with m show ?thesis by blast
qed

section \<open>The claims\<close>

text \<open>
  Claim C1, as stated, fails: the specification's rule asks for characters that are not
  whitespace after the scheme, while the regular expression of \<open>is_valid_url\<close> excludes
  only the space. A URL with a tab after the scheme is accepted by the code and is not
  valid by the rule of the specification.
\<close>
theorem validate_whitespace_counterexample:
  "is_valid_url (str ''http://a'' @ [9] @ str ''b'')
     \<and> \<not> spec_valid (str ''http://a'' @ [9] @ str ''b'')"
  by (intro conjI tab_url_valid tab_url_not_spec)

text \<open>
  Claim C1, amended: \<open>is_valid_url\<close> accepts a string of code points exactly when it
  is the scheme \<open>http\<close> or \<open>https\<close>, each letter in either case, where U+017F (the
  long s) also counts as the \<open>s\<close> of \<open>https\<close>, then \<open>://\<close>, then one or more
  characters none of which is the space; tabs and newlines are accepted. A URL that
  \<open>is_valid_url\<close> rejects is never sent to the prober or to the fetcher by \<open>main\<close>.
\<close>
theorem is_valid_url_rule:
  "(is_valid_url url \<longleftrightarrow>
      (\<exists>scheme rest. url = scheme @ str ''://'' @ rest
         \<and> (list_all2 letter_variant scheme ''http'' \<or> list_all2 letter_variant scheme ''https'')
         \<and> rest \<noteq> [] \<and> 32 \<notin> set rest))
   \<and> (\<not> is_valid_url url \<longrightarrow> main w finish urls filename verbose = Some (r, evs)
         \<longrightarrow> ProbeGet url \<notin> set evs \<and> FetchGet url \<notin> set evs)"
proof (intro conjI impI)
  show "is_valid_url url \<longleftrightarrow>
      (\<exists>scheme rest. url = scheme @ str ''://'' @ rest
         \<and> (list_all2 letter_variant scheme ''http'' \<or> list_all2 letter_variant scheme ''https'')
         \<and> rest \<noteq> [] \<and> 32 \<notin> set rest)"
    by (rule is_valid_url_iff)
next
  assume n: "\<not> is_valid_url url" and m: "main w finish urls filename verbose = Some (r, evs)"
  show "ProbeGet url \<notin> set evs"
    using main_events [OF m, of "ProbeGet url"] n by auto
next
  assume n: "\<not> is_valid_url url" and m: "main w finish urls filename verbose = Some (r, evs)"
  show "FetchGet url \<notin> set evs"
    using main_events [OF m, of "FetchGet url"] n by (auto simp: alive_urls_def)
qed

text \<open>
  Claim C1, an instance: the string \<open>not-a-url\<close> is rejected and never requested; a
  URL whose scheme ends in the long s is accepted.
\<close>
theorem is_valid_url_rule_witness:
  "is_valid_url (str ''http'' @ [383] @ str ''://example.com'')
     \<and> \<not> is_valid_url (str ''not-a-url'')
     \<and> (\<exists>r evs. main example_world (\<lambda>i. 0) [str ''not-a-url'', str ''http://good.test/page''] ''out'' False
                  = Some (r, evs)
          \<and> ProbeGet (str ''not-a-url'') \<notin> set evs \<and> FetchGet (str ''not-a-url'') \<notin> set evs)"
proof -
  have n: "\<not> is_valid_url (str ''not-a-url'')"
    by (rule example_invalid)
  obtain r evs where m: "main example_world (\<lambda>i. 0) [str ''not-a-url'', str ''http://good.test/page'']
      ''out'' False = Some (r, evs)"
    using main_total by blast
  from is_valid_url_rule [where url = "str ''not-a-url''" and w = example_world and finish = "\<lambda>i. 0"
      and urls = "[str ''not-a-url'', str ''http://good.test/page'']" and filename = "''out''"
      and verbose = False and r = r and evs = evs] n m
  have "ProbeGet (str ''not-a-url'') \<notin> set evs \<and> FetchGet (str ''not-a-url'') \<notin> set evs"
    by blast
  with n m long_s_url_valid show ?thesis by blast
qed

text \<open>
  Claim C2: the probe answers \<open>True\<close> (alive) exactly when the status is 200 and the body
  does not contain the phrase \<open>page not found\<close> in any letter case. When the status is
  200 and the body contains the phrase, the probe answers \<open>False\<close>, logs the soft-404
  warning, and \<open>main\<close> never fetches the URL.
\<close>
theorem probe_soft_404:
  "(fst (is_url_alive_and_valid w url verbose) \<longleftrightarrow>
      (\<exists>body. probe_get w url = ProbeResponse 200 body
         \<and> \<not> occurs_any_case ''page not found'' body))
   \<and> (probe_get w url = ProbeResponse 200 body \<and> occurs_any_case ''page not found'' body \<longrightarrow>
        \<not> fst (is_url_alive_and_valid w url verbose)
        \<and> Log WARNING (PageNotFoundDetected url) \<in> set (snd (is_url_alive_and_valid w url verbose))
        \<and> (main w finish urls filename verbose = Some (r, evs) \<longrightarrow> FetchGet url \<notin> set evs))"
proof (intro conjI impI)
  show "fst (is_url_alive_and_valid w url verbose) \<longleftrightarrow>
      (\<exists>body. probe_get w url = ProbeResponse 200 body
         \<and> \<not> occurs_any_case ''page not found'' body)"
    by (rule alive_iff)
next
  assume "probe_get w url = ProbeResponse 200 body \<and> occurs_any_case ''page not found'' body"
  then show "\<not> fst (is_url_alive_and_valid w url verbose)"
    by (simp add: alive_iff)
next
  assume "probe_get w url = ProbeResponse 200 body \<and> occurs_any_case ''page not found'' body"
  then show "Log WARNING (PageNotFoundDetected url)
      \<in> set (snd (is_url_alive_and_valid w url verbose))"
    by (simp add: is_url_alive_and_valid_def Let_def contains_lower_iff [OF phrase_letters])
next
  assume "probe_get w url = ProbeResponse 200 body \<and> occurs_any_case ''page not found'' body"
    and m: "main w finish urls filename verbose = Some (r, evs)"
  then have "\<not> fst (is_url_alive_and_valid w url verbose)"
    by (simp add: alive_iff)
  then show "FetchGet url \<notin> set evs"
    using main_events [OF m, of "FetchGet url"] by (auto simp: alive_urls_def)
qed

text \<open>Claim C2, an instance: the soft-404 page of the example world.\<close>
theorem probe_soft_404_witness:
  "\<not> fst (is_url_alive_and_valid example_world (str ''http://soft.test/'') False)
     \<and> (\<exists>r evs. main example_world (\<lambda>i. 0) [str ''http://soft.test/'', str ''http://good.test/page'']
                   ''out'' False = Some (r, evs)
          \<and> FetchGet (str ''http://soft.test/'') \<notin> set evs)"
proof -
  have p: "probe_get example_world (str ''http://soft.test/'') = ProbeResponse 200 ''<h1>Page NOT Found</h1>''"
    by (simp add: example_world_def)
  have "contains (lower ''<h1>Page NOT Found</h1>'') ''page not found''"
    by code_simp
  then have o: "occurs_any_case ''page not found'' ''<h1>Page NOT Found</h1>''"
    using contains_lower_iff [OF phrase_letters] by blast
  obtain r evs where m: "main example_world (\<lambda>i. 0) [str ''http://soft.test/'', str ''http://good.test/page'']
      ''out'' False = Some (r, evs)"
    using main_total by blast
  from probe_soft_404 [where url = "str ''http://soft.test/''" and w = example_world
      and finish = "\<lambda>i. 0" and urls = "[str ''http://soft.test/'', str ''http://good.test/page'']"
      and filename = "''out''" and verbose = False and r = r and evs = evs
      and body = "''<h1>Page NOT Found</h1>''"] p o m
  have "\<not> fst (is_url_alive_and_valid example_world (str ''http://soft.test/'') False)
      \<and> FetchGet (str ''http://soft.test/'') \<notin> set evs"
    by blast
  with m show ?thesis by blast
qed

text \<open>
  Claim C3: with the session of \<open>main\<close>, \<open>fetch_url\<close> returns after at least one and at
  most three requests. Its requests and pauses are exactly these: one request when the
  reply to the first is not retried; a request, a pause and a second request when the
  first reply is retried and the second is not; and three requests with a pause between
  each two when the first two replies are retried. A reply is retried when it is a
  response with a status of 500 or above, or an exception that the retry client retries;
  so a first response with a status below 500 (every 2xx and 3xx) is followed by no other
  request. The pause after attempt \<open>k\<close> is \<open>start_timeout * factor ^ k\<close>, at most
  \<open>max_timeout\<close>, with the library's defaults: the backoff is exponential.
\<close>
theorem fetch_url_attempts_bound:
  "\<exists>html evs. fetch_url w (main_session w) url verbose = Some (html, evs)
     \<and> traffic evs =
         (if \<not> retried w url 1 then [FetchGet url]
          else if \<not> retried w url 2 then [FetchGet url, Sleep (backoff w 1), FetchGet url]
          else [FetchGet url, Sleep (backoff w 1), FetchGet url, Sleep (backoff w 2), FetchGet url])
     \<and> 1 \<le> length (requests evs) \<and> length (requests evs) \<le> 3
     \<and> pauses evs = map (\<lambda>k. backoff w (Suc k)) [0..<length (requests evs) - 1]
     \<and> ((\<exists>status body. session_get w url 1 = Response status body \<and> status < 500)
          \<longrightarrow> length (requests evs) = 1)
     \<and> backoff w 1 = min (library_start_timeout w * library_factor w) (library_max_timeout w)
     \<and> backoff w 2 = min (library_start_timeout w * library_factor w ^ 2) (library_max_timeout w)"
proof -
  obtain html evs where f: "fetch_url w (main_session w) url verbose = Some (html, evs)"
    and t: "traffic evs =
         (if \<not> retried w url (Suc 0) then [FetchGet url]
          else if \<not> retried w url (Suc (Suc 0))
            then [FetchGet url, Sleep (backoff w (Suc 0)), FetchGet url]
          else [FetchGet url, Sleep (backoff w (Suc 0)), FetchGet url,
                Sleep (backoff w (Suc (Suc 0))), FetchGet url])"
    using fetch_url_traffic [of w url verbose] by blast
  from fetch_url_attempts [OF f] have a: "length (requests evs) \<in> {1, 2, 3}"
    and p: "pauses evs = map (\<lambda>k. backoff w (Suc k)) [0..<length (requests evs) - 1]"
    by blast+
  have one: "length (requests evs) = 1"
    if "\<exists>status body. session_get w url 1 = Response status body \<and> status < 500"
  proof -
    from that obtain status body where "session_get w url (Suc 0) = Response status body"
      and "status < 500"
      by auto
    from fetch_url_first [OF this, of verbose] f show ?thesis
      by auto
  qed
  from a have b: "1 \<le> length (requests evs) \<and> length (requests evs) \<le> 3"
    by auto
  from t have t': "traffic evs =
         (if \<not> retried w url 1 then [FetchGet url]
          else if \<not> retried w url 2 then [FetchGet url, Sleep (backoff w 1), FetchGet url]
          else [FetchGet url, Sleep (backoff w 1), FetchGet url, Sleep (backoff w 2), FetchGet url])"
    by (simp add: numeral_2_eq_2)
  have b1: "backoff w 1 = min (library_start_timeout w * library_factor w) (library_max_timeout w)"
    by (simp add: backoff_eq)
  have b2: "backoff w 2 = min (library_start_timeout w * library_factor w ^ 2) (library_max_timeout w)"
    by (rule backoff_eq)
  from f t' b p one b1 b2 show ?thesis
    by blast
qed

text \<open>
  Claim C3, an instance: in the example world the busy server, which answers 503 each
  time, is requested three times with pauses of 200 and 400 milliseconds, and a page that
  answers 200 at once is requested once.
\<close>
theorem fetch_url_attempts_bound_witness:
  "(\<exists>html evs. fetch_url example_world (main_session example_world) (str ''http://busy.test/'') False
        = Some (html, evs)
      \<and> traffic evs = [FetchGet (str ''http://busy.test/''), Sleep 200,
                       FetchGet (str ''http://busy.test/''), Sleep 400,
                       FetchGet (str ''http://busy.test/'')]
      \<and> pauses evs = [200, 400])
   \<and> (\<exists>html evs. fetch_url example_world (main_session example_world) (str ''http://good.test/page'')
          False = Some (html, evs)
      \<and> length (requests evs) = 1 \<and> pauses evs = [])"
proof -
  have r: "retried example_world (str ''http://busy.test/'') 1"
    "retried example_world (str ''http://busy.test/'') 2"
    by (simp_all add: retried_def example_world_def)
  have "\<exists>html evs. fetch_url example_world (main_session example_world) (str ''http://busy.test/'') False
        = Some (html, evs)
      \<and> traffic evs = [FetchGet (str ''http://busy.test/''), Sleep (backoff example_world 1),
                       FetchGet (str ''http://busy.test/''), Sleep (backoff example_world 2),
                       FetchGet (str ''http://busy.test/'')]"
    using fetch_url_attempts_bound [of example_world "str ''http://busy.test/''" False] r
    by auto
  moreover have "backoff example_world 1 = 200" "backoff example_world 2 = 400"
    by (simp_all add: backoff_eq example_world_def)
  ultimately obtain html evs
    where f: "fetch_url example_world (main_session example_world) (str ''http://busy.test/'') False
        = Some (html, evs)"
      and t: "traffic evs = [FetchGet (str ''http://busy.test/''), Sleep 200,
                       FetchGet (str ''http://busy.test/''), Sleep 400,
                       FetchGet (str ''http://busy.test/'')]"
    by auto
  from t have "pauses (traffic evs) = [200, 400]"
    by simp
  then have "pauses evs = [200, 400]"
    by (simp add: pauses_traffic)
  with f t have busy: "\<exists>html evs. fetch_url example_world (main_session example_world)
        (str ''http://busy.test/'') False = Some (html, evs)
      \<and> traffic evs = [FetchGet (str ''http://busy.test/''), Sleep 200,
                       FetchGet (str ''http://busy.test/''), Sleep 400,
                       FetchGet (str ''http://busy.test/'')]
      \<and> pauses evs = [200, 400]"
    by blast
  have "session_get example_world (str ''http://good.test/page'') 1 =
      Response 200 (Some ''<h1>Intro</h1><p>A</p><p>B</p>'') \<and> (200 :: nat) < 500"
    by (simp add: example_world_def)
  then have "\<exists>status body. session_get example_world (str ''http://good.test/page'') 1 =
      Response status body \<and> status < 500"
    by blast
  with fetch_url_attempts_bound [of example_world "str ''http://good.test/page''" False]
  obtain html' evs' where "fetch_url example_world (main_session example_world)
      (str ''http://good.test/page'') False = Some (html', evs')"
    and "length (requests evs') = 1"
    and "pauses evs' = map (\<lambda>k. backoff example_world (Suc k)) [0..<length (requests evs') - 1]"
    by blast
  then have "\<exists>html evs. fetch_url example_world (main_session example_world)
        (str ''http://good.test/page'') False = Some (html, evs)
      \<and> length (requests evs) = 1 \<and> pauses evs = []"
    by auto
  with busy show ?thesis
    by blast
qed




text \<open>
  Claim C5, as stated, fails in its example: a page with two headings and five paragraphs
  whose headings hold only whitespace gives five records and the titles of records 0 and 1
  are empty, since the titles are stripped.
\<close>
theorem blank_headings_counterexample:
  "BeautifulSoup example_world ''<h1> </h1><h2></h2><p>a</p><p>b</p><p>c</p><p>d</p><p>e</p>'' =
     Parsed (Elements ['' '', []] [''a'', ''b'', ''c'', ''d'', ''e''])
   \<and> fst (after_fetch example_world (str ''http://blank.test/'')
        (Some ''<h1> </h1><h2></h2><p>a</p><p>b</p><p>c</p><p>d</p><p>e</p>'')) =
     Inr [\<lparr>row_url = str ''http://blank.test/'', row_title = [], row_paragraph = ''a''\<rparr>,
          \<lparr>row_url = str ''http://blank.test/'', row_title = [], row_paragraph = ''b''\<rparr>,
          \<lparr>row_url = str ''http://blank.test/'', row_title = [], row_paragraph = ''c''\<rparr>,
          \<lparr>row_url = str ''http://blank.test/'', row_title = [], row_paragraph = ''d''\<rparr>,
          \<lparr>row_url = str ''http://blank.test/'', row_title = [], row_paragraph = ''e''\<rparr>]"
  by (simp add: after_fetch_def extract_records_def example_world_def combine_def example_strip
        upt_conv_Cons)

lemma after_fetch_combine:
  assumes "BeautifulSoup w html = Parsed (Elements headings ps)"
    and "html = [] \<Longrightarrow> headings = [] \<and> ps = []"
  shows "fst (after_fetch w url (Some html)) = Inr (combine url (map strip headings) (map strip ps))"
proof (cases "html = []")
  case True
  with assms(2) show ?thesis
    by (simp add: after_fetch_def combine_def)
next
  case False
  with assms(1) show ?thesis
    by (simp add: after_fetch_def extract_records_def Let_def combine_def)
qed

text \<open>
  Claim C5, amended: for a body on which the parser finds the heading texts and the
  paragraph texts, the records are as many as the longer list; record \<open>i\<close> carries the
  URL, the stripped text of heading \<open>i\<close> if there is one and the empty string otherwise,
  and the stripped text of paragraph \<open>i\<close> if there is one and the empty string
  otherwise. A page with 2 headings and 5 paragraphs gives 5 records; records 0 and 1
  carry the stripped texts of the two headings (empty when a heading is blank), records 2
  to 4 the empty title, and all five their paragraph.
\<close>
theorem extract_pairing:
  assumes "BeautifulSoup w html = Parsed (Elements headings ps)"
    and "html = [] \<Longrightarrow> headings = [] \<and> ps = []"
  shows "\<exists>rows. fst (after_fetch w url (Some html)) = Inr rows
     \<and> length rows = max (length headings) (length ps)
     \<and> (\<forall>i<length rows. rows ! i =
           \<lparr>row_url = url,
            row_title = (if i < length headings then strip (headings ! i) else []),
            row_paragraph = (if i < length ps then strip (ps ! i) else [])\<rparr>)
     \<and> (length headings = 2 \<and> length ps = 5 \<longrightarrow>
           length rows = 5
           \<and> map row_title rows = [strip (headings ! 0), strip (headings ! 1), [], [], []]
           \<and> map row_paragraph rows = map strip ps)"
proof -
  define rows where "rows = combine url (map strip headings) (map strip ps)"
  have r: "fst (after_fetch w url (Some html)) = Inr rows"
    unfolding rows_def using assms by (rule after_fetch_combine)
  have l: "length rows = max (length headings) (length ps)"
    unfolding rows_def by (simp add: combine_length)
  have n: "rows ! i =
           \<lparr>row_url = url,
            row_title = (if i < length headings then strip (headings ! i) else []),
            row_paragraph = (if i < length ps then strip (ps ! i) else [])\<rparr>"
    if "i < length rows" for i
  proof -
    from that l have "i < max (length (map strip headings)) (length (map strip ps))"
      by simp
    from combine_nth [OF this, of url] show ?thesis
      unfolding rows_def by simp
  qed
  have five: "i = 0 \<or> i = 1 \<or> i = 2 \<or> i = 3 \<or> i = 4" if "i < 5" for i :: nat
    using that by arith
  have inst: "length rows = 5
      \<and> map row_title rows = [strip (headings ! 0), strip (headings ! 1), [], [], []]
      \<and> map row_paragraph rows = map strip ps"
    if h: "length headings = 2 \<and> length ps = 5"
  proof (intro conjI)
    from h l show len: "length rows = 5" by simp
    show "map row_title rows = [strip (headings ! 0), strip (headings ! 1), [], [], []]"
    proof (rule nth_equalityI)
      show "length (map row_title rows) = length [strip (headings ! 0), strip (headings ! 1), [], [], []]"
        using len by simp
    next
      fix i assume "i < length (map row_title rows)"
      then have i: "i < length rows" "i < 5" using len by simp_all
      from five [OF i(2)] show "map row_title rows ! i =
          [strip (headings ! 0), strip (headings ! 1), [], [], []] ! i"
        using n [OF i(1)] i(1) h by (elim disjE) simp_all
    qed
    show "map row_paragraph rows = map strip ps"
    proof (rule nth_equalityI)
      show "length (map row_paragraph rows) = length (map strip ps)"
        using len h by simp
    next
      fix i assume "i < length (map row_paragraph rows)"
      then have i: "i < length rows" "i < 5" using len by simp_all
      then show "map row_paragraph rows ! i = map strip ps ! i"
        using n [OF i(1)] h by simp
    qed
  qed
  show ?thesis
  proof (intro exI [of _ rows] conjI allI impI)
    show "fst (after_fetch w url (Some html)) = Inr rows" by (rule r)
    show "length rows = max (length headings) (length ps)" by (rule l)
    show "rows ! i =
           \<lparr>row_url = url,
            row_title = (if i < length headings then strip (headings ! i) else []),
            row_paragraph = (if i < length ps then strip (ps ! i) else [])\<rparr>"
      if "i < length rows" for i
      using that by (rule n)
    show "length rows = 5" if "length headings = 2 \<and> length ps = 5"
      using inst [OF that] by blast
    show "map row_title rows = [strip (headings ! 0), strip (headings ! 1), [], [], []]"
      if "length headings = 2 \<and> length ps = 5"
      using inst [OF that] by blast
    show "map row_paragraph rows = map strip ps" if "length headings = 2 \<and> length ps = 5"
      using inst [OF that] by blast
  qed
qed

text \<open>Claim C5, an instance: two headings and five paragraphs.\<close>
theorem extract_pairing_witness:
  "\<exists>rows. fst (after_fetch
        (example_world\<lparr>BeautifulSoup :=
           \<lambda>html. Parsed (Elements [''One'', '' Two ''] [''a'', ''b'', ''c'', ''d'', ''e''])\<rparr>)
        (str ''http://pairs.test/'') (Some ''<html>'')) = Inr rows
     \<and> length rows = 5
     \<and> map row_title rows = [''One'', ''Two'', [], [], []]
     \<and> map row_paragraph rows = [''a'', ''b'', ''c'', ''d'', ''e'']"
proof -
  let ?w = "example_world\<lparr>BeautifulSoup :=
           \<lambda>html. Parsed (Elements [''One'', '' Two ''] [''a'', ''b'', ''c'', ''d'', ''e''])\<rparr>"
  have b: "BeautifulSoup ?w ''<html>'' =
      Parsed (Elements [''One'', '' Two ''] [''a'', ''b'', ''c'', ''d'', ''e''])"
    by simp
  have e: "''<html>'' = [] \<Longrightarrow> [''One'', '' Two ''] = [] \<and> [''a'', ''b'', ''c'', ''d'', ''e''] = []"
    by simp
  note s = example_strip
  from extract_pairing [OF b e, of "str ''http://pairs.test/''"]
  obtain rows where "fst (after_fetch ?w (str ''http://pairs.test/'') (Some ''<html>'')) = Inr rows"
    and "length rows = 5"
    and "map row_title rows = [strip ''One'', strip '' Two '', [], [], []]"
    and "map row_paragraph rows = map strip [''a'', ''b'', ''c'', ''d'', ''e'']"
    by auto
  then show ?thesis
    by (simp add: s)
qed

lemma example_fetch_bad:
  "fetch_url example_world (main_session example_world) (str ''http://bad.test/'') False =
     Some (Some ''<rejected>'', [FetchGet (str ''http://bad.test/'')])"
proof -
  have "session_get example_world (str ''http://bad.test/'') (Suc 0) = Response 200 (Some ''<rejected>'')"
    by (simp add: example_world_def)
  from fetch_url_first_value [OF this] show ?thesis by simp
qed

lemma example_scrape_bad:
  "scrape_data example_world (main_session example_world) (str ''http://bad.test/'') False =
     Some (Inl ParserError, [FetchGet (str ''http://bad.test/'')])"
  unfolding scrape_data_value [OF example_fetch_bad]
  by (simp add: after_fetch_def extract_records_def example_world_def)

text \<open>
  Claim C6 says that extraction never lets an exception through. The handler of
  \<open>scrape_data\<close> covers the queries only: the \<open>BeautifulSoup\<close> constructor is called
  before the \<open>try\<close> block. In the example world, for the body on which the constructor
  raises, the exception leaves \<open>scrape_data\<close> and then \<open>main\<close>, and the records of the
  other URL are lost with it.
\<close>
theorem parser_exception_propagates:
  "scrape_data example_world (main_session example_world) (str ''http://bad.test/'') False =
     Some (Inl ParserError, [FetchGet (str ''http://bad.test/'')])
   \<and> (\<exists>evs. main example_world (\<lambda>i. 0) [str ''http://good.test/page'', str ''http://bad.test/'']
               ''out'' False = Some (Inl ParserError, evs))"
proof
  show "scrape_data example_world (main_session example_world) (str ''http://bad.test/'') False =
     Some (Inl ParserError, [FetchGet (str ''http://bad.test/'')])"
    by (rule example_scrape_bad)
  have "(str ''http://bad.test/'') \<in> set (alive_urls example_world False
      [str ''http://good.test/page'', str ''http://bad.test/''])"
    by (simp add: alive_urls_def example_valid example_invalid example_probe)
  then show "\<exists>evs. main example_world (\<lambda>i. 0) [str ''http://good.test/page'', str ''http://bad.test/'']
               ''out'' False = Some (Inl ParserError, evs)"
    using example_scrape_bad by (rule main_raises)
qed

text \<open>
  The rest of what claim C6 says holds: an exception of the queries is caught and logged
  as an error, and a page with no headings and no paragraphs gives no records and a
  warning.
\<close>
lemma extract_records_caught:
  "BeautifulSoup w html = Parsed QueryRaised
     \<Longrightarrow> extract_records w url html = (Inr [], [Log ERROR (ParsingError url)])"
  "BeautifulSoup w html = Parsed (Elements [] [])
     \<Longrightarrow> extract_records w url html = (Inr [], [Log WARNING (NoTitlesOrParagraphs url)])"
  "BeautifulSoup w html = ConstructorRaised \<Longrightarrow> extract_records w url html = (Inl ParserError, [])"
  by (simp_all add: extract_records_def)

text \<open>
  Claim C7: in a run of \<open>main\<close> that returns, every record of the dataset has the URL of
  an input that passed \<open>is_valid_url\<close> and the liveness probe, and the fetch of that URL
  returned a non-empty body: no record comes from a URL whose fetch failed.
\<close>
theorem dataset_sources:
  assumes "main w finish urls filename verbose = Some (Inr out, evs)" and "r \<in> set (dataset out)"
  shows "row_url r \<in> set urls \<and> is_valid_url (row_url r)
     \<and> fst (is_url_alive_and_valid w (row_url r) verbose)
     \<and> (\<exists>body evs'. fetch_url w (main_session w) (row_url r) verbose = Some (Some body, evs')
           \<and> body \<noteq> [])"
proof -
  from main_Inr(1) [OF assms(1)] assms(2) obtain url
    where u: "url \<in> set (alive_urls w verbose urls)" and "r \<in> set (records_of w verbose url)"
    by auto
  from records_of_rows [OF this(2)] have "row_url r = url"
    and "\<exists>body evs. fetch_url w (main_session w) url verbose = Some (Some body, evs) \<and> body \<noteq> []"
    by blast+
  with u show ?thesis
    by (auto simp: alive_urls_def)
qed

text \<open>Claim C7, an instance: a record of the good page in the example run.\<close>
theorem dataset_sources_witness:
  "is_valid_url (str ''http://good.test/page'')
     \<and> fst (is_url_alive_and_valid example_world (str ''http://good.test/page'') False)
     \<and> (\<exists>body evs'. fetch_url example_world (main_session example_world)
           (str ''http://good.test/page'') False = Some (Some body, evs') \<and> body \<noteq> [])"
proof -
  obtain evs0 where m: "main example_world (\<lambda>i. 0)
       [str ''http://gone.test/'', str ''not-a-url'', str ''http://good.test/page''] ''out'' False =
     Some (Inr \<lparr>dataset =
                  [\<lparr>row_url = str ''http://good.test/page'', row_title = ''Intro'', row_paragraph = ''A''\<rparr>,
                   \<lparr>row_url = str ''http://good.test/page'', row_title = [], row_paragraph = ''B''\<rparr>],
                written = Some (''out.csv'',
                  [\<lparr>row_url = str ''http://good.test/page'', row_title = ''Intro'', row_paragraph = ''A''\<rparr>,
                   \<lparr>row_url = str ''http://good.test/page'', row_title = [], row_paragraph = ''B''\<rparr>])\<rparr>,
           evs0)"
    using example_run by blast
  from dataset_sources [OF m,
      of "\<lparr>row_url = str ''http://good.test/page'', row_title = ''Intro'', row_paragraph = ''A''\<rparr>"]
  show ?thesis by simp
qed

text \<open>
  Claim C8: the dataset of a run that returns is the concatenation of the records of the
  URLs that passed the first stage, in the order in which the URLs were given, whatever
  the order in which the tasks complete; a run with the same inputs and another order of
  completion returns the same dataset and writes the same file.
\<close>
theorem dataset_order:
  assumes "main w finish urls filename verbose = Some (Inr out, evs)"
  shows "dataset out = concat (map (records_of w verbose) (alive_urls w verbose urls))
     \<and> (\<exists>evs'. main w finish' urls filename verbose = Some (Inr out, evs'))"
proof
  show "dataset out = concat (map (records_of w verbose) (alive_urls w verbose urls))"
    using assms by (rule main_Inr(1))
  from main_returns [OF main_Inr(2) [OF assms], where finish = finish' and filename = filename]
  obtain out' evs' where m': "main w finish' urls filename verbose = Some (Inr out', evs')"
    by blast
  from main_Inr(3) [OF assms] main_Inr(3) [OF m'] have "out' = out"
    by simp
  with m' show "\<exists>evs'. main w finish' urls filename verbose = Some (Inr out, evs')"
    by blast
qed

text \<open>Claim C8, an instance: the example run under two orders of completion.\<close>
theorem dataset_order_witness:
  "\<exists>out evs evs'.
     main example_world (\<lambda>i. 0) [str ''http://gone.test/'', str ''not-a-url'', str ''http://good.test/page'']
       ''out'' False = Some (Inr out, evs)
     \<and> main example_world (\<lambda>i. 2 - i) [str ''http://gone.test/'', str ''not-a-url'', str ''http://good.test/page'']
       ''out'' False = Some (Inr out, evs')
     \<and> dataset out =
        [\<lparr>row_url = str ''http://good.test/page'', row_title = ''Intro'', row_paragraph = ''A''\<rparr>,
         \<lparr>row_url = str ''http://good.test/page'', row_title = [], row_paragraph = ''B''\<rparr>]"
proof -
  let ?urls = "[str ''http://gone.test/'', str ''not-a-url'', str ''http://good.test/page'']"
  let ?out = "\<lparr>dataset =
                  [\<lparr>row_url = str ''http://good.test/page'', row_title = ''Intro'', row_paragraph = ''A''\<rparr>,
                   \<lparr>row_url = str ''http://good.test/page'', row_title = [], row_paragraph = ''B''\<rparr>],
                written = Some (''out.csv'',
                  [\<lparr>row_url = str ''http://good.test/page'', row_title = ''Intro'', row_paragraph = ''A''\<rparr>,
                   \<lparr>row_url = str ''http://good.test/page'', row_title = [], row_paragraph = ''B''\<rparr>])\<rparr>"
  obtain evs0 where m: "main example_world (\<lambda>i. 0) ?urls ''out'' False = Some (Inr ?out, evs0)"
    using example_run by blast
  from dataset_order [OF m, of "\<lambda>i. 2 - i"] obtain evs'
    where m': "main example_world (\<lambda>i. 2 - i) ?urls ''out'' False = Some (Inr ?out, evs')"
    by blast
  have "dataset ?out =
        [\<lparr>row_url = str ''http://good.test/page'', row_title = ''Intro'', row_paragraph = ''A''\<rparr>,
         \<lparr>row_url = str ''http://good.test/page'', row_title = [], row_paragraph = ''B''\<rparr>]"
    by simp
  with m m' show ?thesis
    by blast
qed

text \<open>
  Claim C9: when no URL passes the first stage, or every task returns no records, \<open>main\<close>
  returns normally with the empty dataset, writes no file and logs a warning; when no
  URL passes the first stage nothing is fetched.
\<close>
theorem empty_batch:
  assumes "\<forall>url\<in>set (alive_urls w verbose urls).
      \<exists>evs. scrape_data w (main_session w) url verbose = Some (Inr [], evs)"
  shows "\<exists>evs. main w finish urls filename verbose =
        Some (Inr \<lparr>dataset = [], written = None\<rparr>, evs)
     \<and> (Log WARNING NoValidAliveUrls \<in> set evs \<or> Log WARNING NoDataScraped \<in> set evs)
     \<and> (alive_urls w verbose urls = []
          \<longrightarrow> Log WARNING NoValidAliveUrls \<in> set evs \<and> (\<forall>u. FetchGet u \<notin> set evs))"
proof -
  have all: "\<forall>url\<in>set (alive_urls w verbose urls).
      \<exists>rows evs. scrape_data w (main_session w) url verbose = Some (Inr rows, evs)"
    using assms by blast
  from main_returns [OF all, where finish = finish and filename = filename]
  obtain out evs where m: "main w finish urls filename verbose = Some (Inr out, evs)"
    and e: "dataset out = [] \<longrightarrow> written out = None
          \<and> (Log WARNING NoValidAliveUrls \<in> set evs \<or> Log WARNING NoDataScraped \<in> set evs)"
    by blast
  have "records_of w verbose url = []" if "url \<in> set (alive_urls w verbose urls)" for url
    using assms that by (auto simp: records_of_def)
  then have "concat (map (records_of w verbose) (alive_urls w verbose urls)) = []"
    by simp
  with main_Inr(1) [OF m] have d: "dataset out = []"
    by simp
  with e have wr: "written out = None"
    and warn: "Log WARNING NoValidAliveUrls \<in> set evs \<or> Log WARNING NoDataScraped \<in> set evs"
    by blast+
  from d wr have o: "out = \<lparr>dataset = [], written = None\<rparr>"
    by (cases out) simp
  have none: "Log WARNING NoValidAliveUrls \<in> set evs \<and> (\<forall>u. FetchGet u \<notin> set evs)"
    if v: "alive_urls w verbose urls = []"
  proof
    from m v show "Log WARNING NoValidAliveUrls \<in> set evs"
      unfolding main_unfold by auto
    show "\<forall>u. FetchGet u \<notin> set evs"
    proof
      fix u
      from main_events [OF m, of "FetchGet u"] v show "FetchGet u \<notin> set evs"
        by auto
    qed
  qed
  from m o warn none show ?thesis
    by blast
qed

lemma example_fetch_empty:
  "fetch_url example_world (main_session example_world) (str ''http://empty.test/'') False =
     Some (Some [], [FetchGet (str ''http://empty.test/'')])"
proof -
  have "session_get example_world (str ''http://empty.test/'') (Suc 0) = Response 200 (Some [])"
    by (simp add: example_world_def)
  from fetch_url_first_value [OF this] show ?thesis by simp
qed

text \<open>Claim C9, an instance: a page with an empty body and a malformed URL.\<close>
theorem empty_batch_witness:
  "\<exists>evs. main example_world (\<lambda>i. 0) [str ''http://empty.test/'', str ''not-a-url''] ''out'' False =
        Some (Inr \<lparr>dataset = [], written = None\<rparr>, evs)
     \<and> (Log WARNING NoValidAliveUrls \<in> set evs \<or> Log WARNING NoDataScraped \<in> set evs)"
proof -
  have a: "alive_urls example_world False [str ''http://empty.test/'', str ''not-a-url''] =
      [str ''http://empty.test/'']"
    by (simp add: alive_urls_def example_valid example_invalid example_probe)
  have s: "scrape_data example_world (main_session example_world) (str ''http://empty.test/'') False =
      Some (Inr [], [FetchGet (str ''http://empty.test/'')])"
    unfolding scrape_data_value [OF example_fetch_empty] by (simp add: after_fetch_def)
  have "\<forall>url\<in>set (alive_urls example_world False [str ''http://empty.test/'', str ''not-a-url'']).
      \<exists>evs. scrape_data example_world (main_session example_world) url False = Some (Inr [], evs)"
    unfolding a using s by simp
  from empty_batch [OF this, of "\<lambda>i. 0" "''out''"] show ?thesis
    by blast
qed

text \<open>
  Claim C10: when \<open>fetch_url\<close> returns \<open>None\<close> or the empty string, \<open>scrape_data\<close>
  returns no records and adds no event, whatever the parser would do: the parser is not
  called.
\<close>
theorem empty_body_no_records:
  assumes "fetch_url w session url verbose = Some (html, evs)" and "html = None \<or> html = Some []"
  shows "scrape_data w session url verbose = Some (Inr [], evs)"
  using assms by (auto simp: scrape_data_def after_fetch_def)

text \<open>
  Claim C10, an instance: an empty body in a world whose parser always raises.
\<close>
theorem empty_body_no_records_witness:
  "scrape_data (example_world\<lparr>BeautifulSoup := \<lambda>html. ConstructorRaised\<rparr>)
       (main_session (example_world\<lparr>BeautifulSoup := \<lambda>html. ConstructorRaised\<rparr>))
       (str ''http://empty.test/'') False
     = Some (Inr [], [FetchGet (str ''http://empty.test/'')])"
proof -
  let ?w = "example_world\<lparr>BeautifulSoup := \<lambda>html. ConstructorRaised\<rparr>"
  have "session_get ?w (str ''http://empty.test/'') (Suc 0) = Response 200 (Some [])"
    by (simp add: example_world_def)
  from fetch_url_first_value [OF this]
  have f: "fetch_url ?w (main_session ?w) (str ''http://empty.test/'') False =
      Some (Some [], [FetchGet (str ''http://empty.test/'')])"
    by simp
  from empty_body_no_records [OF f] show ?thesis
    by simp
qed

end
